theory Spec2Isabelle
  imports Main "HOL-Library.Code_Target_Numeral"
begin

section \<open>Text, characters and the library functions the script calls\<close>

text \<open>
  The script \<^verbatim>\<open>scripts/prepare_gdpr.py\<close> works on Python \<^verbatim>\<open>str\<close> values: sequences
  of Unicode code points. A text is therefore a list of code points (natural numbers), and
  \<open>length\<close> is Python's \<^verbatim>\<open>len\<close>. ASCII literals of the source are written
  \<open>lit ''...''\<close>.
\<close>

type_synonym codepoint = nat
type_synonym str = "codepoint list"

definition lit :: "string \<Rightarrow> str" where
  "lit s = map of_char s"

abbreviation NL :: codepoint where "NL \<equiv> 10"
abbreviation SP :: codepoint where "SP \<equiv> 32"

text \<open>
  Python's \<^verbatim>\<open>str.isspace\<close>, which is also the class \<^verbatim>\<open>\s\<close> of \<^verbatim>\<open>re\<close> on \<^verbatim>\<open>str\<close>
  patterns and the set \<^verbatim>\<open>str.strip()\<close> removes: the ASCII controls 9 to 13 and 28 to 31,
  the space, U+0085, U+00A0, U+1680, U+2000 to U+200A, U+2028, U+2029, U+202F, U+205F and
  U+3000.
\<close>

definition is_space :: "codepoint \<Rightarrow> bool" where
  "is_space c \<longleftrightarrow>
     (9 \<le> c \<and> c \<le> 13) \<or> (28 \<le> c \<and> c \<le> 32) \<or> c = 133 \<or> c = 160 \<or> c = 5760 \<or>
     (8192 \<le> c \<and> c \<le> 8202) \<or> c = 8232 \<or> c = 8233 \<or> c = 8239 \<or> c = 8287 \<or> c = 12288"

text \<open>
  The class \<^verbatim>\<open>\d\<close> on \<^verbatim>\<open>str\<close> patterns is the Unicode category Nd, and \<^verbatim>\<open>int\<close>
  reads every such digit by its decimal value. The digits come in runs of ten that start at
  the code points below (Unicode 14.0, the database of CPython 3.11); \<open>decimal\<close> is
  \<^verbatim>\<open>unicodedata.decimal\<close>.
\<close>

definition decimal_zeros :: "codepoint list" where
  "decimal_zeros =
     [48, 1632, 1776, 1984, 2406, 2534, 2662, 2790, 2918, 3046, 3174, 3302, 3430, 3558,
      3664, 3792, 3872, 4160, 4240, 6112, 6160, 6470, 6608, 6784, 6800, 6992, 7088, 7232,
      7248, 42528, 43216, 43264, 43472, 43504, 43600, 44016, 65296, 66720, 68912, 69734,
      69872, 69942, 70096, 70384, 70736, 70864, 71248, 71360, 71472, 71904, 72016, 72784,
      73040, 73120, 92768, 92864, 93008, 120782, 120792, 120802, 120812, 120822, 123200,
      123632, 125264, 130032]"

definition decimal :: "codepoint \<Rightarrow> nat option" where
  "decimal c = map_option (\<lambda>z. c - z) (find (\<lambda>z. z \<le> c \<and> c < z + 10) decimal_zeros)"

definition is_digit :: "codepoint \<Rightarrow> bool" where
  "is_digit c \<longleftrightarrow> decimal c \<noteq> None"

text \<open>
  \<^verbatim>\<open>int(s)\<close> on a run of digits matched by \<^verbatim>\<open>\d+\<close>. Python's integers are
  unbounded; the interpreter's limit on the length of a digit string is not modelled.
\<close>

definition py_int :: "str \<Rightarrow> int" where
  "py_int s = foldl (\<lambda>acc c. 10 * acc + int (the (decimal c))) 0 s"

text \<open>The formatting of an integer in an f-string: \<^verbatim>\<open>f"{n}"\<close>.\<close>

fun digits_of_nat :: "nat \<Rightarrow> str" where
  "digits_of_nat n = (if n < 10 then [48 + n] else digits_of_nat (n div 10) @ [48 + n mod 10])"

declare digits_of_nat.simps [simp del]

definition py_str :: "int \<Rightarrow> str" where
  "py_str n = (if n < 0 then 45 # digits_of_nat (nat (- n)) else digits_of_nat (nat n))"

text \<open>\<^verbatim>\<open>s.split('\n')\<close> and \<^verbatim>\<open>'\n'.join(lines)\<close>.\<close>

function split_nl :: "str \<Rightarrow> str list" where
  "split_nl s =
     (case dropWhile (\<lambda>c. c \<noteq> NL) s of
        [] \<Rightarrow> [s]
      | _ # r \<Rightarrow> takeWhile (\<lambda>c. c \<noteq> NL) s # split_nl r)"
  by pat_completeness auto
termination
proof (relation "measure length")
  fix s :: str and x r
  assume "dropWhile (\<lambda>c. c \<noteq> NL) s = x # r"
  then have "length r < length (dropWhile (\<lambda>c. c \<noteq> NL) s)" by simp
  also have "\<dots> \<le> length s" by (rule length_dropWhile_le)
  finally show "(r, s) \<in> measure length" by simp
qed simp

declare split_nl.simps [simp del]

fun join_nl :: "str list \<Rightarrow> str" where
  "join_nl [] = []"
| "join_nl [l] = l"
| "join_nl (l # ls) = l @ NL # join_nl ls"

text \<open>\<^verbatim>\<open>s.strip()\<close> and \<^verbatim>\<open>s.lstrip('\n')\<close>.\<close>

definition strip :: "str \<Rightarrow> str" where
  "strip s = rev (dropWhile is_space (rev (dropWhile is_space s)))"

definition lstrip_nl :: "str \<Rightarrow> str" where
  "lstrip_nl s = dropWhile (\<lambda>c. c = NL) s"

text \<open>
  \<^verbatim>\<open>s.find(sub)\<close>: the least index at which \<open>sub\<close> occurs, \<open>None\<close> for Python's -1.
  The second argument counts the characters already passed.
\<close>

fun find_from :: "nat \<Rightarrow> str \<Rightarrow> str \<Rightarrow> nat option" where
  "find_from i sub [] = (if sub = [] then Some i else None)"
| "find_from i sub (c # cs) =
     (if take (length sub) (c # cs) = sub then Some i else find_from (Suc i) sub cs)"

definition py_find :: "str \<Rightarrow> str \<Rightarrow> nat option" where
  "py_find s sub = find_from 0 sub s"

text \<open>A text occurs in another at an index.\<close>

definition occurs_at :: "str \<Rightarrow> str \<Rightarrow> nat \<Rightarrow> bool" where
  "occurs_at s sub k \<longleftrightarrow> k + length sub \<le> length s \<and> take (length sub) (drop k s) = sub"

text \<open>The slice \<^verbatim>\<open>s[i:j]\<close> for indices that are not negative.\<close>

definition slice :: "str \<Rightarrow> nat \<Rightarrow> nat \<Rightarrow> str" where
  "slice s i j = drop i (take j s)"


section \<open>Regular expressions as backtracking matchers\<close>

text \<open>
  A pattern of the source is translated construct by construct. A matcher runs from a
  cursor: whether the position is the start of a line (the start of the text, or just
  after a newline: where \<^verbatim>\<open>^\<close> matches under \<^verbatim>\<open>re.MULTILINE\<close>) and the text that
  remains. Every construct takes the matcher of the rest of the pattern as its
  continuation, so that a quantifier can try its alternatives in the order of Python's
  backtracking engine: a greedy quantifier the longest run first, a lazy one the shortest.
  A successful match returns the captured groups and the cursor after the match.
\<close>

type_synonym cursor = "bool \<times> str"
type_synonym 'g matcher = "cursor \<Rightarrow> ('g \<times> cursor) option"

fun advance :: "str \<Rightarrow> cursor \<Rightarrow> cursor" where
  "advance p (b, t) = ((if p = [] then b else last p = NL), drop (length p) t)"

definition accept :: "'g \<Rightarrow> 'g matcher" where
  "accept g cur = Some (g, cur)"

text \<open>A literal string, and one character of a class.\<close>

definition lit_k :: "str \<Rightarrow> 'g matcher \<Rightarrow> 'g matcher" where
  "lit_k p k cur = (if take (length p) (snd cur) = p then k (advance p cur) else None)"

definition class_k :: "(codepoint \<Rightarrow> bool) \<Rightarrow> 'g matcher \<Rightarrow> 'g matcher" where
  "class_k P k cur =
     (case snd cur of [] \<Rightarrow> None | c # r \<Rightarrow> if P c then k (c = NL, r) else None)"

text \<open>
  Quantified classes. \<open>first_some\<close> takes the first alternative that lets the rest of the
  pattern match. The run a quantifier matched is handed to the continuation (a capturing
  group around it reads it there).
\<close>

fun first_some :: "('a \<Rightarrow> 'b option) \<Rightarrow> 'a list \<Rightarrow> 'b option" where
  "first_some f [] = None"
| "first_some f (x # xs) = (case f x of Some y \<Rightarrow> Some y | None \<Rightarrow> first_some f xs)"

definition split_at :: "(str \<Rightarrow> 'g matcher) \<Rightarrow> cursor \<Rightarrow> nat \<Rightarrow> ('g \<times> cursor) option" where
  "split_at k cur i = k (take i (snd cur)) (advance (take i (snd cur)) cur)"

definition run_length :: "(codepoint \<Rightarrow> bool) \<Rightarrow> cursor \<Rightarrow> nat" where
  "run_length P cur = length (takeWhile P (snd cur))"

definition atleast_k :: "nat \<Rightarrow> (codepoint \<Rightarrow> bool) \<Rightarrow> (str \<Rightarrow> 'g matcher) \<Rightarrow> 'g matcher" where
  "atleast_k m P k cur = first_some (split_at k cur) (rev [m ..< Suc (run_length P cur)])"

definition star_k :: "(codepoint \<Rightarrow> bool) \<Rightarrow> (str \<Rightarrow> 'g matcher) \<Rightarrow> 'g matcher" where
  "star_k = atleast_k 0"

definition plus_k :: "(codepoint \<Rightarrow> bool) \<Rightarrow> (str \<Rightarrow> 'g matcher) \<Rightarrow> 'g matcher" where
  "plus_k = atleast_k 1"

definition lazy_plus_k :: "(codepoint \<Rightarrow> bool) \<Rightarrow> (str \<Rightarrow> 'g matcher) \<Rightarrow> 'g matcher" where
  "lazy_plus_k P k cur = first_some (split_at k cur) [1 ..< Suc (run_length P cur)]"

text \<open>
  The anchors under \<^verbatim>\<open>re.MULTILINE\<close>, the positive lookahead \<^verbatim>\<open>(?=...)\<close> and the
  alternation \<^verbatim>\<open>A|B\<close> (each branch carries its own continuation).
\<close>

definition bol_k :: "'g matcher \<Rightarrow> 'g matcher" where
  "bol_k k cur = (if fst cur then k cur else None)"

definition eol_k :: "'g matcher \<Rightarrow> 'g matcher" where
  "eol_k k cur = (if snd cur = [] \<or> hd (snd cur) = NL then k cur else None)"

definition lookahead_k :: "unit matcher \<Rightarrow> 'g matcher \<Rightarrow> 'g matcher" where
  "lookahead_k l k cur = (case l cur of None \<Rightarrow> None | Some _ \<Rightarrow> k cur)"

definition alt_k :: "'g matcher \<Rightarrow> 'g matcher \<Rightarrow> 'g matcher" where
  "alt_k a b cur = (case a cur of Some r \<Rightarrow> Some r | None \<Rightarrow> b cur)"

text \<open>
  The scan shared by \<^verbatim>\<open>re.sub\<close>, \<^verbatim>\<open>re.findall\<close> and \<^verbatim>\<open>re.finditer\<close>: from left to
  right, the pattern is tried at every position; a match is recorded and the scan goes on
  where the match ended; where the pattern does not match, the character is passed over.
  The result keeps both, in order: a passed character as \<open>Inl\<close>, the groups of a match as
  \<open>Inr\<close>. No pattern of the script matches the empty string, so a match always ends to the
  right of where it started; for a match that did not, the scan records it and passes one
  character, which is all the definition needs to be total.
\<close>

fun scan :: "'g matcher \<Rightarrow> bool \<Rightarrow> str \<Rightarrow> (codepoint + 'g) list" where
  "scan m b [] = []"
| "scan m b (c # cs) =
     (case m (b, c # cs) of
        None \<Rightarrow> Inl c # scan m (c = NL) cs
      | Some (g, (b', r)) \<Rightarrow>
          if length r \<le> length cs then Inr g # scan m b' r
          else Inr g # Inl c # scan m (c = NL) cs)"

definition re_sub_from :: "'g matcher \<Rightarrow> ('g \<Rightarrow> str) \<Rightarrow> bool \<Rightarrow> str \<Rightarrow> str" where
  "re_sub_from m repl b s = concat (map (case_sum (\<lambda>c. [c]) repl) (scan m b s))"

definition re_sub :: "'g matcher \<Rightarrow> ('g \<Rightarrow> str) \<Rightarrow> str \<Rightarrow> str" where
  "re_sub m repl s = re_sub_from m repl True s"

definition re_finditer :: "'g matcher \<Rightarrow> str \<Rightarrow> 'g list" where
  "re_finditer m s = concat (map (case_sum (\<lambda>c. []) (\<lambda>g. [g])) (scan m True s))"


section \<open>The normalizer: \<^verbatim>\<open>clean_gdpr_text\<close>\<close>

text \<open>
  The patterns of the cleaning steps, in the order of the source:
  \<^verbatim>\<open>\+[-+]+\+\<close>, \<^verbatim>\<open>\|\<close>, \<^verbatim>\<open>[ \t]+\<close>, \<^verbatim>\<open>^\((\d+)\)\s*\<close> (multi-line) and
  \<^verbatim>\<open>\n{3,}\<close>.
\<close>

definition is_plus_minus :: "codepoint \<Rightarrow> bool" where
  "is_plus_minus c \<longleftrightarrow> c = 45 \<or> c = 43"

definition is_blank :: "codepoint \<Rightarrow> bool" where
  "is_blank c \<longleftrightarrow> c = SP \<or> c = 9"

definition is_nl :: "codepoint \<Rightarrow> bool" where
  "is_nl c \<longleftrightarrow> c = NL"

definition re_border :: "unit matcher" where
  "re_border = lit_k (lit ''+'') (plus_k is_plus_minus (\<lambda>_. lit_k (lit ''+'') (accept ())))"

definition re_bar :: "unit matcher" where
  "re_bar = lit_k (lit ''|'') (accept ())"

definition re_blanks :: "unit matcher" where
  "re_blanks = plus_k is_blank (\<lambda>_. accept ())"

definition re_recital_fix :: "str matcher" where
  "re_recital_fix =
     bol_k (lit_k (lit ''('') (plus_k is_digit (\<lambda>ds.
       lit_k (lit '')'') (star_k is_space (\<lambda>_. accept ds)))))"

definition re_newlines :: "unit matcher" where
  "re_newlines = atleast_k 3 is_nl (\<lambda>_. accept ())"

text \<open>The steps, one definition for each statement of the source.\<close>

definition remove_borders :: "str \<Rightarrow> str" where
  "remove_borders s = re_sub re_border (\<lambda>_. []) s"

definition remove_bars :: "str \<Rightarrow> str" where
  "remove_bars s = re_sub re_bar (\<lambda>_. []) s"

definition clean_line :: "str \<Rightarrow> str" where
  "clean_line l = strip (re_sub re_blanks (\<lambda>_. lit '' '') l)"

definition clean_lines :: "str \<Rightarrow> str" where
  "clean_lines s = join_nl (map clean_line (split_nl s))"

definition recital_repl :: "str \<Rightarrow> str" where
  "recital_repl ds = lit ''('' @ ds @ lit '') ''"

abbreviation rf :: "bool \<Rightarrow> str \<Rightarrow> str" where
  "rf \<equiv> re_sub_from re_recital_fix recital_repl"

definition fix_recitals :: "str \<Rightarrow> str" where
  "fix_recitals s = re_sub re_recital_fix recital_repl s"

definition collapse_newlines :: "str \<Rightarrow> str" where
  "collapse_newlines s = re_sub re_newlines (\<lambda>_. [NL, NL]) s"

definition clean_text :: "str \<Rightarrow> str" where
  "clean_text raw =
     lstrip_nl (collapse_newlines (fix_recitals (clean_lines (remove_bars (remove_borders raw)))))"

text \<open>
  The patterns of the statistics: \<^verbatim>\<open>^Article (\d+)$\<close>, \<^verbatim>\<open>^CHAPTER ([IVX]+)$\<close> and
  \<^verbatim>\<open>^\((\d+)\) \<close>, all multi-line. \<^verbatim>\<open>re.findall\<close> returns the text of the one group.
\<close>

definition is_roman :: "codepoint \<Rightarrow> bool" where
  "is_roman c \<longleftrightarrow> c = 73 \<or> c = 86 \<or> c = 88"

definition re_article_line :: "str matcher" where
  "re_article_line = bol_k (lit_k (lit ''Article '') (plus_k is_digit (\<lambda>ds. eol_k (accept ds))))"

definition re_chapter_line :: "str matcher" where
  "re_chapter_line = bol_k (lit_k (lit ''CHAPTER '') (plus_k is_roman (\<lambda>rs. eol_k (accept rs))))"

definition re_recital_line :: "str matcher" where
  "re_recital_line =
     bol_k (lit_k (lit ''('') (plus_k is_digit (\<lambda>ds. lit_k (lit '') '') (accept ds))))"

record stats =
  total_lines :: nat
  total_chars :: nat
  chapters :: nat
  chapter_list :: "str list"
  articles :: nat
  article_range :: str
  recitals :: nat
  recital_range :: str

text \<open>
  \<^verbatim>\<open>sorted(set(int(a) for a in matches))\<close>, and the range
  \<^verbatim>\<open>f"{min(u)}-{max(u)}" if u else "none"\<close>, where \<open>min\<close> and \<open>max\<close> run over the list.
\<close>

definition unique_numbers :: "str list \<Rightarrow> int list" where
  "unique_numbers ms = sort (remdups (map py_int ms))"

definition format_range :: "int list \<Rightarrow> str" where
  "format_range u =
     (case u of
        [] \<Rightarrow> lit ''none''
      | x # xs \<Rightarrow> py_str (fold min xs x) @ lit ''-'' @ py_str (fold max xs x))"

definition compute_stats :: "str \<Rightarrow> stats" where
  "compute_stats s =
     (let unique_articles = unique_numbers (re_finditer re_article_line s);
          chapter_matches = re_finditer re_chapter_line s;
          unique_recitals = unique_numbers (re_finditer re_recital_line s)
      in \<lparr> total_lines = length (split_nl s),
           total_chars = length s,
           chapters = length chapter_matches,
           chapter_list = chapter_matches,
           articles = length unique_articles,
           article_range = format_range unique_articles,
           recitals = length unique_recitals,
           recital_range = format_range unique_recitals \<rparr>)"

text \<open>
  The distinct numbers of the article headings and of the recitals of a text: what the
  set in \<^verbatim>\<open>sorted(set(...))\<close> holds.
\<close>

definition article_numbers :: "str \<Rightarrow> int set" where
  "article_numbers s = set (map py_int (re_finditer re_article_line s))"

definition recital_numbers :: "str \<Rightarrow> int set" where
  "recital_numbers s = set (map py_int (re_finditer re_recital_line s))"

text \<open>
  Files. A file system gives the decoded text of every readable file, and says which paths
  can be written. Opening an unreadable file for reading, or an unwritable one for writing,
  raises; that is the one error of the script. Reading in text mode translates the line
  ends \<^verbatim>\<open>\r\n\<close> and \<^verbatim>\<open>\r\<close> to \<^verbatim>\<open>\n\<close>; writing is modelled as on POSIX, where the
  text is written as it is.
\<close>

record filesystem =
  content :: "str \<Rightarrow> str option"
  writable :: "str \<Rightarrow> bool"

datatype error = IOError

fun universal_newlines :: "str \<Rightarrow> str" where
  "universal_newlines [] = []"
| "universal_newlines [c] = (if c = 13 then [NL] else [c])"
| "universal_newlines (c # d # cs) =
     (if c = 13 \<and> d = NL then NL # universal_newlines cs
      else if c = 13 then NL # universal_newlines (d # cs)
      else c # universal_newlines (d # cs))"

definition read_text :: "filesystem \<Rightarrow> str \<Rightarrow> error + str" where
  "read_text fs path =
     (case content fs path of None \<Rightarrow> Inl IOError | Some t \<Rightarrow> Inr (universal_newlines t))"

definition write_text :: "filesystem \<Rightarrow> str \<Rightarrow> str \<Rightarrow> error + filesystem" where
  "write_text fs path t =
     (if writable fs path then Inr (fs\<lparr>content := (content fs)(path \<mapsto> t)\<rparr>) else Inl IOError)"

definition clean_gdpr_text :: "filesystem \<Rightarrow> str \<Rightarrow> str \<Rightarrow> error + filesystem \<times> stats" where
  "clean_gdpr_text fs input_path output_path =
     (case read_text fs input_path of
        Inl e \<Rightarrow> Inl e
      | Inr raw \<Rightarrow>
          (let s = clean_text raw in
           case write_text fs output_path s of
             Inl e \<Rightarrow> Inl e
           | Inr fs' \<Rightarrow> Inr (fs', compute_stats s)))"


section \<open>The structural extractor: \<^verbatim>\<open>generate_expected_json\<close>\<close>

text \<open>
  The patterns: \<^verbatim>\<open>^CHAPTER ([IVX]+)\n\n(.+?)(?=\n\n|$)\<close> and
  \<^verbatim>\<open>^Article (\d+)\n+([^\n]+)\<close>, both multi-line, and for the definitions
  \<^verbatim>\<open>\((\d+)\)\s*[Q]([^Q]+)[Q]\<close>, where the class \<open>Q\<close> holds the apostrophe, the double
  quote and the single quotation marks U+2018 and U+2019. The dot matches every character
  but the newline.
\<close>

definition not_nl :: "codepoint \<Rightarrow> bool" where
  "not_nl c \<longleftrightarrow> c \<noteq> NL"

definition is_quote :: "codepoint \<Rightarrow> bool" where
  "is_quote c \<longleftrightarrow> c = 39 \<or> c = 8216 \<or> c = 8217 \<or> c = 34"

definition not_quote :: "codepoint \<Rightarrow> bool" where
  "not_quote c \<longleftrightarrow> \<not> is_quote c"

definition re_chapter :: "(str \<times> str) matcher" where
  "re_chapter =
     bol_k (lit_k (lit ''CHAPTER '') (plus_k is_roman (\<lambda>num.
       lit_k [NL, NL] (lazy_plus_k not_nl (\<lambda>title.
         lookahead_k (alt_k (lit_k [NL, NL] (accept ())) (eol_k (accept ())))
           (accept (num, title)))))))"

definition re_article :: "(str \<times> str) matcher" where
  "re_article =
     bol_k (lit_k (lit ''Article '') (plus_k is_digit (\<lambda>num.
       plus_k is_nl (\<lambda>_. plus_k not_nl (\<lambda>title. accept (num, title))))))"

definition re_definition :: "(str \<times> str) matcher" where
  "re_definition =
     lit_k (lit ''('') (plus_k is_digit (\<lambda>num.
       lit_k (lit '')'') (star_k is_space (\<lambda>_.
         class_k is_quote (plus_k not_quote (\<lambda>trm.
           class_k is_quote (accept (num, trm))))))))"

record chapter_entry =
  ch_number :: str
  ch_title :: str

record article =
  art_number :: int
  art_title :: str

record definition_entry =
  def_number :: int
  def_term :: str

record counts =
  n_chapters :: nat
  n_articles :: nat
  n_definitions :: nat

record expected =
  regulation :: str
  full_name :: str
  statistics :: counts
  chapter_entries :: "chapter_entry list"
  article_entries :: "article list"
  definition_entries :: "definition_entry list"

definition extract_chapters :: "str \<Rightarrow> chapter_entry list" where
  "extract_chapters s =
     map (\<lambda>(num, title). \<lparr> ch_number = num, ch_title = strip title \<rparr>) (re_finditer re_chapter s)"

definition article_matches :: "str \<Rightarrow> article list" where
  "article_matches s =
     map (\<lambda>(num, title). \<lparr> art_number = py_int num, art_title = strip title \<rparr>)
       (re_finditer re_article s)"

text \<open>
  The dictionary \<^verbatim>\<open>seen_articles\<close> keeps its keys in the order of their first insertion,
  so it is an association list; an article whose number is already a key is passed over.
  \<^verbatim>\<open>sorted(..., key=...)\<close> is a stable sort by the number.
\<close>

fun seen_articles :: "(int \<times> article) list \<Rightarrow> article list \<Rightarrow> (int \<times> article) list" where
  "seen_articles seen [] = seen"
| "seen_articles seen (art # arts) =
     (if art_number art \<in> fst ` set seen then seen_articles seen arts
      else seen_articles (seen @ [(art_number art, art)]) arts)"

definition extract_articles :: "str \<Rightarrow> article list" where
  "extract_articles s = sort_key art_number (map snd (seen_articles [] (article_matches s)))"

definition extract_definitions :: "str \<Rightarrow> definition_entry list" where
  "extract_definitions s =
     (case (py_find s (lit ''\<newline>Article 4\<newline>''), py_find s (lit ''\<newline>Article 5\<newline>'')) of
        (Some art4_start, Some art5_start) \<Rightarrow>
          map (\<lambda>(num, trm). \<lparr> def_number = py_int num, def_term = strip trm \<rparr>)
            (re_finditer re_definition (slice s art4_start art5_start))
      | _ \<Rightarrow> [])"

definition extract_expected :: "str \<Rightarrow> expected" where
  "extract_expected s =
     (let chs = extract_chapters s; arts = extract_articles s; defs = extract_definitions s
      in \<lparr> regulation = lit ''GDPR'',
           full_name = lit ''Regulation (EU) 2016/679'',
           statistics = \<lparr> n_chapters = length chs, n_articles = length arts,
                          n_definitions = length defs \<rparr>,
           chapter_entries = chs,
           article_entries = arts,
           definition_entries = defs \<rparr>)"

text \<open>
  \<^verbatim>\<open>json.dump\<close> is the library's; the text it writes for a record is a parameter.
\<close>

definition generate_expected_json ::
  "(expected \<Rightarrow> str) \<Rightarrow> filesystem \<Rightarrow> str \<Rightarrow> str \<Rightarrow> error + filesystem" where
  "generate_expected_json json_dumps fs text_path json_path =
     (case read_text fs text_path of
        Inl e \<Rightarrow> Inl e
      | Inr s \<Rightarrow> write_text fs json_path (json_dumps (extract_expected s)))"


section \<open>The command line: \<^verbatim>\<open>main\<close>\<close>

text \<open>
  \<^verbatim>\<open>sys.argv\<close> is the program's name followed by the arguments. A run ends with the file
  system it leaves, the texts it printed (one for each call of \<^verbatim>\<open>print\<close>) and its exit
  status: 0 when \<^verbatim>\<open>main\<close> returns, 1 after \<^verbatim>\<open>sys.exit(1)\<close> and after an exception
  that nothing catches.
\<close>

record outcome =
  final_fs :: filesystem
  stdout :: "str list"
  exit_status :: nat

definition usage_line :: "str \<Rightarrow> str" where
  "usage_line prog =
     lit ''Usage: '' @ prog @ lit '' <input_file> <output_file> [--generate-expected <json_file>]''"

fun join_comma :: "str list \<Rightarrow> str" where
  "join_comma [] = []"
| "join_comma [l] = l"
| "join_comma (l # ls) = l @ lit '', '' @ join_comma ls"

definition report :: "str \<Rightarrow> stats \<Rightarrow> str \<Rightarrow> str list" where
  "report input_path st output_path =
     [lit ''Processing '' @ input_path @ lit ''...'',
      lit ''\<newline>GDPR Text Statistics:'',
      lit ''  Total lines: '' @ py_str (int (total_lines st)),
      lit ''  Total characters: '' @ py_str (int (total_chars st)),
      lit ''  Chapters: '' @ py_str (int (chapters st)) @ lit '' ('' @
        join_comma (chapter_list st) @ lit '')'',
      lit ''  Articles: '' @ py_str (int (articles st)) @ lit '' (range: '' @
        article_range st @ lit '')'',
      lit ''  Recitals: '' @ py_str (int (recitals st)) @ lit '' (range: '' @
        recital_range st @ lit '')'',
      lit ''\<newline>Output written to '' @ output_path]"

fun main :: "(expected \<Rightarrow> str) \<Rightarrow> filesystem \<Rightarrow> str \<Rightarrow> str list \<Rightarrow> outcome" where
  "main json_dumps fs prog (input_path # output_path # rest) =
     (case clean_gdpr_text fs input_path output_path of
        Inl e \<Rightarrow>
          \<lparr> final_fs = fs, stdout = [lit ''Processing '' @ input_path @ lit ''...''],
            exit_status = 1 \<rparr>
      | Inr (fs1, st) \<Rightarrow>
          (let printed = report input_path st output_path in
           if 2 \<le> length rest \<and> rest ! 0 = lit ''--generate-expected'' then
             (case generate_expected_json json_dumps fs1 output_path (rest ! 1) of
                Inl e \<Rightarrow>
                  \<lparr> final_fs = fs1,
                    stdout = printed @ [lit ''\<newline>Generating expected output JSON...''],
                    exit_status = 1 \<rparr>
              | Inr fs2 \<Rightarrow>
                  \<lparr> final_fs = fs2,
                    stdout = printed @ [lit ''\<newline>Generating expected output JSON...'',
                      lit ''Expected output written to '' @ rest ! 1],
                    exit_status = 0 \<rparr>)
           else \<lparr> final_fs = fs1, stdout = printed, exit_status = 0 \<rparr>))"
| "main json_dumps fs prog args =
     \<lparr> final_fs = fs, stdout = [usage_line prog], exit_status = 1 \<rparr>"



section \<open>Well-behaved matchers\<close>

text \<open>
  A matcher keeps the cursor when every match it reports ends at a suffix of the text it
  started from, with the line-start flag of that position. It consumes when that suffix
  is a proper one.
\<close>

definition keeps_cursor :: "'g matcher \<Rightarrow> bool" where
  "keeps_cursor k \<longleftrightarrow>
     (\<forall>b t g b' r. k (b, t) = Some (g, (b', r)) \<longrightarrow>
        (\<exists>p. t = p @ r \<and> b' = (if p = [] then b else last p = NL)))"

definition consuming :: "'g matcher \<Rightarrow> bool" where
  "consuming m \<longleftrightarrow>
     (\<forall>b t g b' r. m (b, t) = Some (g, (b', r)) \<longrightarrow>
        (\<exists>p. p \<noteq> [] \<and> t = p @ r \<and> b' = (last p = NL)))"


text \<open>
  The invariant of the dictionary \<^verbatim>\<open>seen_articles\<close>: no key twice, and every article
  under its own number.
\<close>

definition seen_ok :: "(int \<times> article) list \<Rightarrow> bool" where
  "seen_ok seen \<longleftrightarrow> distinct (map fst seen) \<and> (\<forall>(k, a) \<in> set seen. k = art_number a)"



section \<open>The specification's reading of the headings\<close>

text \<open>
  The specification speaks of the first line-start occurrence of a heading. In its words,
  not the code's: the heading stands at an index when it occurs there, a line starts there
  (the index is 0 or follows a newline) and the line ends with it (the text ends there, or
  a newline follows). These two definitions state the claims as they are written; the
  extractor does not use them.
\<close>

definition spec_heading_at :: "str \<Rightarrow> str \<Rightarrow> nat \<Rightarrow> bool" where
  "spec_heading_at s h i \<longleftrightarrow>
     occurs_at s h i \<and> (i = 0 \<or> s ! (i - 1) = NL) \<and>
     (i + length h = length s \<or> s ! (i + length h) = NL)"

definition spec_first_heading :: "str \<Rightarrow> str \<Rightarrow> nat option" where
  "spec_first_heading s h = find (spec_heading_at s h) [0 ..< Suc (length s)]"

text \<open>
  The specification's chapter title: the text that follows, up to the next blank line or
  the end of the text.
\<close>

fun spec_until_blank_line :: "str \<Rightarrow> str" where
  "spec_until_blank_line [] = []"
| "spec_until_blank_line (c # cs) =
     (if take 2 (c # cs) = [NL, NL] then [] else c # spec_until_blank_line cs)"

section \<open>Basic facts about the library functions\<close>

lemma scan_Nil: "scan m b [] = []" by simp

lemma re_finditer_Nil: "re_finditer m [] = []"
  by (simp add: re_finditer_def)

lemma split_nl_Nil: "split_nl [] = [[]]"
  by (simp add: split_nl.simps)

lemma split_nl_Cons:
  "split_nl (c # cs) = (if c = NL then [] # split_nl cs else (c # hd (split_nl cs)) # tl (split_nl cs))"
proof (cases "c = NL")
  case True
  then show ?thesis by (subst split_nl.simps) simp
next
  case False
  show ?thesis
  proof (cases "dropWhile (\<lambda>c. c \<noteq> NL) cs")
    case Nil
    then have "split_nl cs = [cs]" by (subst split_nl.simps) (simp only: list.case)
    moreover have "dropWhile (\<lambda>c. c \<noteq> NL) (c # cs) = []"
      using False Nil by simp
    then have "split_nl (c # cs) = [c # cs]"
      by (subst split_nl.simps) (simp only: list.case)
    ultimately show ?thesis using False by simp
  next
    case (Cons x r)
    then have "split_nl cs = takeWhile (\<lambda>c. c \<noteq> NL) cs # split_nl r"
      by (subst split_nl.simps) (simp only: list.case)
    moreover have "dropWhile (\<lambda>c. c \<noteq> NL) (c # cs) = x # r"
      using False Cons by simp
    then have "split_nl (c # cs) = takeWhile (\<lambda>c. c \<noteq> NL) (c # cs) # split_nl r"
      by (subst split_nl.simps) (simp only: list.case)
    ultimately show ?thesis using False by simp
  qed
qed

lemma split_nl_not_Nil: "split_nl s \<noteq> []"
  by (subst split_nl.simps) (simp split: list.splits)

lemma length_split_nl: "length (split_nl s) = Suc (count_list s NL)"
proof (induction s)
  case Nil
  show ?case by (simp add: split_nl_Nil)
next
  case (Cons c cs)
  have "length (tl (split_nl cs)) = count_list cs NL"
    using Cons by simp
  then show ?case using Cons by (simp add: split_nl_Cons)
qed


section \<open>How the quantifiers of the patterns match\<close>

lemma first_some_None: "(\<And>x. x \<in> set xs \<Longrightarrow> f x = None) \<Longrightarrow> first_some f xs = None"
  by (induction xs) auto

lemma first_some_last:
  assumes "\<And>x. x \<in> set xs \<Longrightarrow> f x = None"
  shows "first_some f (xs @ [y]) = f y"
  using assms by (induction xs) (auto split: option.splits)

lemma first_some_hd:
  assumes "f x \<noteq> None"
  shows "first_some f (x # xs) = f x"
  using assms by (auto split: option.splits)

lemma advance_run:
  "advance (takeWhile P t) (b, t) =
     ((if takeWhile P t = [] then b else last (takeWhile P t) = NL), dropWhile P t)"
  by (simp add: dropWhile_eq_drop)

lemma split_at_run:
  "split_at k (b, t) (length (takeWhile P t)) =
     k (takeWhile P t) ((if takeWhile P t = [] then b else last (takeWhile P t) = NL), dropWhile P t)"
  unfolding split_at_def snd_conv
  by (simp only: takeWhile_eq_take [symmetric] advance_run)

lemma drop_in_run:
  assumes "i < length (takeWhile P t)"
  shows "\<exists>c r. drop i t = c # r \<and> P c"
proof -
  have "i < length t"
    using assms length_takeWhile_le [of P t] by simp
  moreover have "P (t ! i)"
    using assms by (metis nth_mem set_takeWhileD takeWhile_nth)
  ultimately show ?thesis
    by (metis Cons_nth_drop_Suc)
qed

lemma split_at_in_run:
  assumes "\<And>p b c r. P c \<Longrightarrow> k p (b, c # r) = None"
    and "i < length (takeWhile P t)"
  shows "split_at k (b, t) i = None"
proof -
  obtain c r where d: "drop i t = c # r" and "P c"
    using drop_in_run [OF assms(2)] by blast
  have "i \<le> length t"
    using assms(2) length_takeWhile_le [of P t] by simp
  then have "snd (advance (take i t) (b, t)) = c # r"
    using d by (simp add: min_def)
  then have "advance (take i t) (b, t) = (fst (advance (take i t) (b, t)), c # r)"
    by (metis prod.collapse)
  then show ?thesis
    using assms(1) [OF \<open>P c\<close>] by (simp add: split_at_def)
qed

text \<open>
  Where the rest of the pattern cannot start with a character of the class, a greedy
  quantifier never gives a character back: it takes the whole run or fails.
\<close>

lemma atleast_k_run:
  assumes "\<And>p b c r. P c \<Longrightarrow> k p (b, c # r) = None"
  shows "atleast_k m P k (b, t) =
     (if m \<le> length (takeWhile P t)
      then k (takeWhile P t)
             ((if takeWhile P t = [] then b else last (takeWhile P t) = NL), dropWhile P t)
      else None)"
proof (cases "m \<le> length (takeWhile P t)")
  case True
  let ?n = "length (takeWhile P t)"
  have "rev [m ..< Suc ?n] = ?n # rev [m ..< ?n]"
    using True by simp
  moreover have "first_some (split_at k (b, t)) (rev [m ..< ?n]) = None"
    by (rule first_some_None) (simp add: split_at_in_run [where P = P and k = k, OF assms])
  ultimately have "atleast_k m P k (b, t) = split_at k (b, t) ?n"
    by (simp add: atleast_k_def run_length_def split: option.splits)
  then show ?thesis
    using True by (simp only: split_at_run if_True)
next
  case False
  then show ?thesis
    by (simp add: atleast_k_def run_length_def)
qed

text \<open>Where the rest of the pattern always matches, the quantifier takes the whole run.\<close>

lemma atleast_k_total:
  assumes "\<And>p cur. k p cur \<noteq> None"
  shows "atleast_k m P k (b, t) =
     (if m \<le> length (takeWhile P t)
      then k (takeWhile P t)
             ((if takeWhile P t = [] then b else last (takeWhile P t) = NL), dropWhile P t)
      else None)"
proof (cases "m \<le> length (takeWhile P t)")
  case True
  let ?n = "length (takeWhile P t)"
  have "rev [m ..< Suc ?n] = ?n # rev [m ..< ?n]"
    using True by simp
  moreover have "split_at k (b, t) ?n \<noteq> None"
    by (simp add: split_at_def assms)
  ultimately have "atleast_k m P k (b, t) = split_at k (b, t) ?n"
    by (auto simp add: atleast_k_def run_length_def split: option.splits)
  then show ?thesis
    using True by (simp only: split_at_run if_True)
next
  case False
  then show ?thesis
    by (simp add: atleast_k_def run_length_def)
qed

text \<open>
  A lazy quantifier whose continuation fails inside the run ends at the end of the run.
\<close>

lemma lazy_plus_k_run:
  assumes "\<And>p b c r. P c \<Longrightarrow> k p (b, c # r) = None"
  shows "lazy_plus_k P k (b, t) =
     (if 1 \<le> length (takeWhile P t)
      then k (takeWhile P t) (last (takeWhile P t) = NL, dropWhile P t)
      else None)"
proof (cases "1 \<le> length (takeWhile P t)")
  case True
  let ?n = "length (takeWhile P t)"
  have "[1 ..< Suc ?n] = [1 ..< ?n] @ [?n]"
    using True by simp
  moreover have "first_some (split_at k (b, t)) ([1 ..< ?n] @ [?n]) = split_at k (b, t) ?n"
    by (rule first_some_last) (simp add: split_at_in_run [where P = P and k = k, OF assms])
  ultimately have "lazy_plus_k P k (b, t) = split_at k (b, t) ?n"
    by (simp add: lazy_plus_k_def run_length_def)
  moreover have "takeWhile P t \<noteq> []"
    using True by auto
  ultimately show ?thesis
    using True by (simp only: split_at_run if_True if_False)
next
  case False
  then show ?thesis
    by (simp add: lazy_plus_k_def run_length_def)
qed

lemma lit_k_eq:
  "lit_k p k (b, t) =
     (if take (length p) t = p then k ((if p = [] then b else last p = NL), drop (length p) t)
      else None)"
  by (simp add: lit_k_def)

lemma decimal_zeros_ge: "z \<in> set decimal_zeros \<Longrightarrow> 48 \<le> z"
  by (auto simp: decimal_zeros_def)

lemma is_digit_ge_48: "is_digit c \<Longrightarrow> 48 \<le> c"
proof -
  assume "is_digit c"
  then obtain z where "z \<in> set decimal_zeros" "z \<le> c"
    by (auto simp: is_digit_def decimal_def find_None_iff)
  then show ?thesis
    using decimal_zeros_ge by fastforce
qed

lemma not_digit_small [simp]:
  "\<not> is_digit NL" "\<not> is_digit SP" "\<not> is_digit 40" "\<not> is_digit 41" "\<not> is_digit 45"
  using is_digit_ge_48 by fastforce+

lemma lit_k_single:
  "lit_k [x] k (b, t) = (case t of [] \<Rightarrow> None | c # r \<Rightarrow> if c = x then k (x = NL, r) else None)"
  by (cases t) (auto simp: lit_k_def)

lemma star_k_accept:
  "star_k P (\<lambda>_. accept g) (b, t) =
     Some (g, (if takeWhile P t = [] then b else last (takeWhile P t) = NL), dropWhile P t)"
  unfolding star_k_def by (subst atleast_k_total) (simp_all add: accept_def)

lemma re_recital_fix_eq:
  "re_recital_fix (b, t) =
     (case t of
        [] \<Rightarrow> None
      | c # r \<Rightarrow>
          if b \<and> c = 40 \<and> takeWhile is_digit r \<noteq> [] then
            (case dropWhile is_digit r of
               [] \<Rightarrow> None
             | d # r2 \<Rightarrow>
                 if d = 41
                 then Some (takeWhile is_digit r,
                        (takeWhile is_space r2 \<noteq> [] \<and> last (takeWhile is_space r2) = NL),
                        dropWhile is_space r2)
                 else None)
          else None)" (is "_ = ?rhs")
proof -
  let ?k = "\<lambda>ds. lit_k [41] (star_k is_space (\<lambda>_. accept ds))"
  have k: "\<And>p b c r. is_digit c \<Longrightarrow> ?k p (b, c # r) = None"
    by (auto simp: lit_k_single)
  have d: "\<And>b t. plus_k is_digit ?k (b, t) =
     (if 1 \<le> length (takeWhile is_digit t)
      then ?k (takeWhile is_digit t)
             ((if takeWhile is_digit t = [] then b else last (takeWhile is_digit t) = NL),
              dropWhile is_digit t)
      else None)"
    unfolding plus_k_def by (rule atleast_k_run) (rule k)
  have "re_recital_fix (b, t) = (if b then lit_k [40] (plus_k is_digit ?k) (b, t) else None)"
    by (simp add: re_recital_fix_def bol_k_def lit_def)
  also have "\<dots> = ?rhs"
    unfolding lit_k_single [of 40] d
    by (auto simp: lit_k_single star_k_accept Suc_le_eq simp del: dropWhile_eq_Nil_conv
          split: list.splits)
  finally show ?thesis .
qed

section \<open>Every pattern of the script consumes what it matches\<close>

lemma keeps_cursorD:
  "keeps_cursor k \<Longrightarrow> k (b, t) = Some (g, (b', r)) \<Longrightarrow>
     \<exists>p. t = p @ r \<and> b' = (if p = [] then b else last p = NL)"
  unfolding keeps_cursor_def by blast

lemma consumingD:
  "consuming m \<Longrightarrow> m (b, t) = Some (g, (b', r)) \<Longrightarrow>
     \<exists>p. p \<noteq> [] \<and> t = p @ r \<and> b' = (last p = NL)"
  unfolding consuming_def by blast

lemma keeps_accept: "keeps_cursor (accept g)"
  by (auto simp: keeps_cursor_def accept_def)

lemma keeps_lit_k:
  assumes "keeps_cursor k"
  shows "keeps_cursor (lit_k p k)"
  unfolding keeps_cursor_def
proof (intro allI impI)
  fix b t g b' r
  assume "lit_k p k (b, t) = Some (g, (b', r))"
  then have tp: "take (length p) t = p"
    and k: "k ((if p = [] then b else last p = NL), drop (length p) t) = Some (g, (b', r))"
    by (auto simp: lit_k_eq split: if_splits)
  from keeps_cursorD [OF assms k] obtain q where q: "drop (length p) t = q @ r"
    and b': "b' = (if q = [] then (if p = [] then b else last p = NL) else last q = NL)"
    by blast
  have "t = (p @ q) @ r"
    using append_take_drop_id [of "length p" t] tp q by simp
  moreover have "b' = (if p @ q = [] then b else last (p @ q) = NL)"
    using b' by simp
  ultimately show "\<exists>p. t = p @ r \<and> b' = (if p = [] then b else last p = NL)"
    by blast
qed

lemma consuming_lit_k:
  assumes "keeps_cursor k" and "p \<noteq> []"
  shows "consuming (lit_k p k)"
  unfolding consuming_def
proof (intro allI impI)
  fix b t g b' r
  assume "lit_k p k (b, t) = Some (g, (b', r))"
  then have tp: "take (length p) t = p"
    and k: "k (last p = NL, drop (length p) t) = Some (g, (b', r))"
    using assms(2) by (auto simp: lit_k_eq split: if_splits)
  from keeps_cursorD [OF assms(1) k] obtain q where q: "drop (length p) t = q @ r"
    and b': "b' = (if q = [] then last p = NL else last q = NL)"
    by blast
  have "t = (p @ q) @ r"
    using append_take_drop_id [of "length p" t] tp q by simp
  moreover have "b' = (last (p @ q) = NL)"
    using b' by simp
  ultimately show "\<exists>p. p \<noteq> [] \<and> t = p @ r \<and> b' = (last p = NL)"
    using assms(2) by blast
qed

lemma keeps_class_k:
  assumes "keeps_cursor k"
  shows "keeps_cursor (class_k P k)"
  unfolding keeps_cursor_def
proof (intro allI impI)
  fix b t g b' r
  assume "class_k P k (b, t) = Some (g, (b', r))"
  then obtain c u where t: "t = c # u" and k: "k (c = NL, u) = Some (g, (b', r))"
    by (auto simp: class_k_def split: list.splits if_splits)
  from keeps_cursorD [OF assms k] obtain q where "u = q @ r"
    and "b' = (if q = [] then c = NL else last q = NL)"
    by blast
  then have "t = (c # q) @ r \<and> b' = (if c # q = [] then b else last (c # q) = NL)"
    using t by simp
  then show "\<exists>p. t = p @ r \<and> b' = (if p = [] then b else last p = NL)"
    by blast
qed

lemma first_some_SomeD: "first_some f xs = Some y \<Longrightarrow> \<exists>x \<in> set xs. f x = Some y"
  by (induction xs) (auto split: option.splits)

lemma keeps_split_at:
  assumes "\<And>run. keeps_cursor (k run)" and "split_at k (b, t) i = Some (g, (b', r))"
  shows "\<exists>p. t = take i t @ p @ r \<and>
           b' = (if take i t @ p = [] then b else last (take i t @ p) = NL)"
proof -
  have k: "k (take i t) ((if take i t = [] then b else last (take i t) = NL),
             drop (length (take i t)) t) = Some (g, (b', r))"
    using assms(2) by (simp add: split_at_def)
  from keeps_cursorD [OF assms(1) k] obtain q where q: "drop (length (take i t)) t = q @ r"
    and b': "b' = (if q = [] then (if take i t = [] then b else last (take i t) = NL)
                   else last q = NL)"
    by blast
  have "take (length (take i t)) t = take i t"
    by (simp add: min_def)
  then have "t = take i t @ q @ r"
    using append_take_drop_id [of "length (take i t)" t] q by simp
  moreover have "b' = (if take i t @ q = [] then b else last (take i t @ q) = NL)"
    using b' by simp
  ultimately show ?thesis by blast
qed

lemma keeps_atleast_k:
  assumes "\<And>run. keeps_cursor (k run)"
  shows "keeps_cursor (atleast_k m P k)"
  unfolding keeps_cursor_def
proof (intro allI impI)
  fix b t g b' r
  assume "atleast_k m P k (b, t) = Some (g, (b', r))"
  then obtain i where "split_at k (b, t) i = Some (g, (b', r))"
    unfolding atleast_k_def by (blast dest: first_some_SomeD)
  from keeps_split_at [of k, OF assms this] obtain p where
    "t = (take i t @ p) @ r" "b' = (if take i t @ p = [] then b else last (take i t @ p) = NL)"
    by auto
  then show "\<exists>p. t = p @ r \<and> b' = (if p = [] then b else last p = NL)"
    by blast
qed

lemma consuming_atleast_k:
  assumes "\<And>run. keeps_cursor (k run)" and "1 \<le> m"
  shows "consuming (atleast_k m P k)"
  unfolding consuming_def
proof (intro allI impI)
  fix b t g b' r
  assume a: "atleast_k m P k (b, t) = Some (g, (b', r))"
  then obtain i where i: "i \<in> set (rev [m ..< Suc (run_length P (b, t))])"
    and s: "split_at k (b, t) i = Some (g, (b', r))"
    unfolding atleast_k_def by (blast dest: first_some_SomeD)
  have "1 \<le> i" "i \<le> length t"
    using i assms(2) length_takeWhile_le [of P t] by (auto simp: run_length_def)
  then have ne: "take i t \<noteq> []" by auto
  from keeps_split_at [of k, OF assms(1) s] obtain p where
    "t = (take i t @ p) @ r" "b' = (last (take i t @ p) = NL)"
    using ne by auto
  moreover have "take i t @ p \<noteq> []"
    using ne by simp
  ultimately show "\<exists>p. p \<noteq> [] \<and> t = p @ r \<and> b' = (last p = NL)"
    by blast
qed

lemma keeps_lazy_plus_k:
  assumes "\<And>run. keeps_cursor (k run)"
  shows "keeps_cursor (lazy_plus_k P k)"
  unfolding keeps_cursor_def
proof (intro allI impI)
  fix b t g b' r
  assume "lazy_plus_k P k (b, t) = Some (g, (b', r))"
  then obtain i where "split_at k (b, t) i = Some (g, (b', r))"
    unfolding lazy_plus_k_def by (blast dest: first_some_SomeD)
  from keeps_split_at [of k, OF assms this] obtain p where
    "t = (take i t @ p) @ r" "b' = (if take i t @ p = [] then b else last (take i t @ p) = NL)"
    by auto
  then show "\<exists>p. t = p @ r \<and> b' = (if p = [] then b else last p = NL)"
    by blast
qed

lemma keeps_eol_k: "keeps_cursor k \<Longrightarrow> keeps_cursor (eol_k k)"
  unfolding keeps_cursor_def eol_k_def by (auto split: if_splits)

lemma keeps_lookahead_k:
  assumes "keeps_cursor k"
  shows "keeps_cursor (lookahead_k l k)"
  unfolding keeps_cursor_def
proof (intro allI impI)
  fix b t g b' r
  assume "lookahead_k l k (b, t) = Some (g, (b', r))"
  then have "k (b, t) = Some (g, (b', r))"
    by (auto simp: lookahead_k_def split: option.splits)
  from keeps_cursorD [OF assms this]
  show "\<exists>p. t = p @ r \<and> b' = (if p = [] then b else last p = NL)" .
qed

lemma consuming_bol_k: "consuming k \<Longrightarrow> consuming (bol_k k)"
  unfolding consuming_def bol_k_def by (auto split: if_splits)

lemmas keeps_intros =
  keeps_accept keeps_lit_k keeps_class_k keeps_atleast_k keeps_lazy_plus_k keeps_eol_k
  keeps_lookahead_k

lemma lit_not_Nil [simp]: "lit (c # s) \<noteq> []"
  by (simp add: lit_def)

lemma consuming_re_border: "consuming re_border"
  unfolding re_border_def plus_k_def by (intro consuming_lit_k keeps_intros) simp

lemma consuming_re_bar: "consuming re_bar"
  unfolding re_bar_def by (intro consuming_lit_k keeps_intros) simp

lemma consuming_re_blanks: "consuming re_blanks"
  unfolding re_blanks_def plus_k_def by (intro consuming_atleast_k keeps_intros) simp

lemma consuming_re_recital_fix: "consuming re_recital_fix"
  unfolding re_recital_fix_def plus_k_def star_k_def
  by (intro consuming_bol_k consuming_lit_k keeps_intros) simp

lemma consuming_re_newlines: "consuming re_newlines"
  unfolding re_newlines_def by (intro consuming_atleast_k keeps_intros) simp

lemma consuming_re_article_line: "consuming re_article_line"
  unfolding re_article_line_def plus_k_def
  by (intro consuming_bol_k consuming_lit_k keeps_intros) simp

lemma consuming_re_chapter_line: "consuming re_chapter_line"
  unfolding re_chapter_line_def plus_k_def
  by (intro consuming_bol_k consuming_lit_k keeps_intros) simp

lemma consuming_re_recital_line: "consuming re_recital_line"
  unfolding re_recital_line_def plus_k_def
  by (intro consuming_bol_k consuming_lit_k keeps_intros) simp

lemma consuming_re_chapter: "consuming re_chapter"
  unfolding re_chapter_def plus_k_def
  by (intro consuming_bol_k consuming_lit_k keeps_intros) simp

lemma consuming_re_article: "consuming re_article"
  unfolding re_article_def plus_k_def
  by (intro consuming_bol_k consuming_lit_k keeps_intros) simp

lemma consuming_re_definition: "consuming re_definition"
  unfolding re_definition_def plus_k_def star_k_def
  by (intro consuming_lit_k keeps_intros) simp

section \<open>The scan, and the newline-collapsing step\<close>

lemma scan_Cons:
  assumes "consuming m"
  shows "scan m b (c # cs) =
     (case m (b, c # cs) of
        None \<Rightarrow> Inl c # scan m (c = NL) cs
      | Some (g, (b', r)) \<Rightarrow> Inr g # scan m b' r)"
proof (cases "m (b, c # cs)")
  case None
  then show ?thesis by simp
next
  case (Some x)
  obtain g b' r where x: "x = (g, (b', r))"
    by (metis prod.collapse)
  from consumingD [OF assms Some [unfolded x]] obtain p where "p \<noteq> []" "c # cs = p @ r"
    by blast
  then have "length r \<le> length cs"
    by (cases p) auto
  then show ?thesis
    using Some x by simp
qed

declare scan.simps(2) [simp del]

lemma re_newlines_eq:
  "re_newlines (b, t) =
     (if 3 \<le> length (takeWhile is_nl t) then Some ((), (True, dropWhile is_nl t)) else None)"
proof -
  have "re_newlines (b, t) =
     (if 3 \<le> length (takeWhile is_nl t)
      then accept () ((if takeWhile is_nl t = [] then b else last (takeWhile is_nl t) = NL),
                      dropWhile is_nl t)
      else None)"
    unfolding re_newlines_def by (rule atleast_k_total) (simp add: accept_def)
  moreover have "last (takeWhile is_nl t) = NL" if "takeWhile is_nl t \<noteq> []"
    using that by (metis is_nl_def last_in_set set_takeWhileD)
  ultimately show ?thesis
    by (auto simp: accept_def)
qed

lemma scan_re_newlines_flag: "scan re_newlines b t = scan re_newlines b' t"
proof (induction t arbitrary: b b' rule: length_induct)
  case (1 t)
  show ?case
  proof (cases t)
    case Nil
    then show ?thesis by simp
  next
    case (Cons c cs)
    have "length (dropWhile is_nl cs) < length t"
      using Cons length_dropWhile_le [of is_nl cs] by simp
    moreover have "length cs < length t"
      using Cons by simp
    ultimately show ?thesis
      using 1 [rule_format, of "dropWhile is_nl cs"] 1 [rule_format, of cs] Cons
      by (simp add: scan_Cons [OF consuming_re_newlines] re_newlines_eq is_nl_def)
  qed
qed

lemma collapse_newlines_Nil [simp]: "collapse_newlines [] = []"
  by (simp add: collapse_newlines_def re_sub_def re_sub_from_def)

lemma collapse_newlines_Cons:
  "collapse_newlines (c # cs) =
     (if c = NL \<and> 2 \<le> length (takeWhile is_nl cs)
      then NL # NL # collapse_newlines (dropWhile is_nl cs)
      else c # collapse_newlines cs)"
  unfolding collapse_newlines_def re_sub_def re_sub_from_def
  by (simp add: scan_Cons [OF consuming_re_newlines] re_newlines_eq is_nl_def
        scan_re_newlines_flag [of "c = NL" _ True])

lemma takeWhile_nl_replicate:
  "c = [] \<or> hd c \<noteq> NL \<Longrightarrow> takeWhile is_nl (replicate k NL @ c) = replicate k NL"
  by (induction k) (cases c; auto simp: is_nl_def)+

lemma dropWhile_nl_replicate:
  "c = [] \<or> hd c \<noteq> NL \<Longrightarrow> dropWhile is_nl (replicate k NL @ c) = c"
  by (induction k) (cases c; auto simp: is_nl_def)+

lemma collapse_newlines_run:
  assumes "c = [] \<or> hd c \<noteq> NL"
  shows "collapse_newlines (replicate n NL @ c) =
     replicate (if 3 \<le> n then 2 else n) NL @ collapse_newlines c"
proof -
  have tw: "takeWhile is_nl (replicate k NL @ c) = replicate k NL" for k
    using assms by (rule takeWhile_nl_replicate)
  have dw: "dropWhile is_nl (replicate k NL @ c) = c" for k
    using assms by (rule dropWhile_nl_replicate)
  have c0: "collapse_newlines (NL # c) = NL # collapse_newlines c"
    using tw [of 0] by (simp add: collapse_newlines_Cons)
  have c1: "collapse_newlines (NL # NL # c) = NL # NL # collapse_newlines c"
    using tw [of 1] c0 by (simp add: collapse_newlines_Cons)
  consider "n = 0" | "n = 1" | "n = 2" | "3 \<le> n" by linarith
  then show ?thesis
  proof cases
    case 4
    then obtain k where n: "n = Suc k" and k: "2 \<le> k"
      by (cases n) auto
    show ?thesis
      using tw [of k] dw [of k] k 4 by (simp add: n collapse_newlines_Cons numeral_2_eq_2)
  qed (simp_all add: c0 c1 numeral_2_eq_2)
qed

lemma collapse_newlines_append_run:
  assumes "a = [] \<or> last a \<noteq> NL" and "c = [] \<or> hd c \<noteq> NL"
  shows "collapse_newlines (a @ replicate n NL @ c) =
     collapse_newlines a @ replicate (if 3 \<le> n then 2 else n) NL @ collapse_newlines c"
  using assms(1)
proof (induction a rule: length_induct)
  case (1 a)
  show ?case
  proof (cases a)
    case Nil
    then show ?thesis
      using collapse_newlines_run [OF assms(2)] by simp
  next
    case (Cons x a')
    let ?rest = "replicate n NL @ c"
    show ?thesis
    proof (cases "a' = []")
      case True
      then have "x \<noteq> NL"
        using 1(2) Cons by simp
      then show ?thesis
        using True Cons collapse_newlines_run [OF assms(2), of n]
        by (simp add: collapse_newlines_Cons)
    next
      case False
      then have la: "last a' \<noteq> NL"
        using 1(2) Cons by simp
      then have nn: "\<not> is_nl (last a')"
        by (simp add: is_nl_def)
      have tw: "takeWhile is_nl (a' @ ?rest) = takeWhile is_nl a'"
        using False nn by (meson last_in_set takeWhile_append1)
      have dw: "dropWhile is_nl (a' @ ?rest) = dropWhile is_nl a' @ ?rest"
        using False nn by (meson last_in_set dropWhile_append1)
      have dne: "dropWhile is_nl a' \<noteq> []"
        using False nn by (metis dropWhile_eq_Nil_conv last_in_set)
      have dl: "last (dropWhile is_nl a') \<noteq> NL"
        using dne la by (metis append_Nil2 last_appendR takeWhile_dropWhile_id)
      have ih1: "collapse_newlines (dropWhile is_nl a' @ ?rest) =
          collapse_newlines (dropWhile is_nl a') @ replicate (if 3 \<le> n then 2 else n) NL @
          collapse_newlines c"
        using 1(1) [rule_format, of "dropWhile is_nl a'"] dl Cons
          length_dropWhile_le [of is_nl a']
        by simp
      have ih2: "collapse_newlines (a' @ ?rest) =
          collapse_newlines a' @ replicate (if 3 \<le> n then 2 else n) NL @ collapse_newlines c"
        using 1(1) [rule_format, of a'] la Cons by simp
      show ?thesis
        unfolding Cons append_Cons collapse_newlines_Cons [of x] tw dw ih1 ih2
        by simp
    qed
  qed
qed

lemma hd_collapse_newlines:
  "s = [] \<or> hd s \<noteq> NL \<Longrightarrow> collapse_newlines s = [] \<or> hd (collapse_newlines s) \<noteq> NL"
  by (cases s) (auto simp: collapse_newlines_Cons)

lemma hd_dropWhile_nl: "dropWhile is_nl s = [] \<or> hd (dropWhile is_nl s) \<noteq> NL"
  using hd_dropWhile [of is_nl s] by (auto simp: is_nl_def)

lemma collapse_newlines_no_triple: "collapse_newlines s \<noteq> u @ NL # NL # NL # v"
proof (induction s arbitrary: u rule: length_induct)
  case (1 s)
  show ?case
  proof (cases s)
    case Nil
    then show ?thesis by simp
  next
    case (Cons c cs)
    show ?thesis
    proof (cases "c = NL \<and> 2 \<le> length (takeWhile is_nl cs)")
      case True
      let ?d = "dropWhile is_nl cs"
      have eq: "collapse_newlines s = NL # NL # collapse_newlines ?d"
        using True Cons by (simp add: collapse_newlines_Cons)
      have h: "collapse_newlines ?d = [] \<or> hd (collapse_newlines ?d) \<noteq> NL"
        by (rule hd_collapse_newlines) (rule hd_dropWhile_nl)
      have ih: "collapse_newlines ?d \<noteq> w @ NL # NL # NL # v" for w
        using 1 [rule_format, of ?d w] Cons length_dropWhile_le [of is_nl cs] by simp
      show ?thesis
      proof
        assume a: "collapse_newlines s = u @ NL # NL # NL # v"
        show False
        proof (cases u)
          case Nil
          then show False using a eq h by auto
        next
          case (Cons x u1)
          show False
          proof (cases u1)
            case Nil
            then show False using a eq h Cons by auto
          next
            case (Cons y u2)
            then show False using a eq ih [of u2] \<open>u = x # u1\<close> by auto
          qed
        qed
      qed
    next
      case False
      then have eq: "collapse_newlines s = c # collapse_newlines cs"
        unfolding Cons collapse_newlines_Cons [of c] by (simp only: if_False)
      have ih: "collapse_newlines cs \<noteq> w @ NL # NL # NL # v" for w
        using 1 [rule_format, of cs w] Cons by simp
      show ?thesis
      proof
        assume a: "collapse_newlines s = u @ NL # NL # NL # v"
        show False
        proof (cases u)
          case (Cons x u1)
          then show False using a eq ih [of u1] by auto
        next
          case Nil
          then have c: "c = NL" and cc: "collapse_newlines cs = NL # NL # v"
            using a eq by auto
          have "cs \<noteq> [] \<and> hd cs = NL"
            using cc hd_collapse_newlines [of cs] by auto
          then obtain cs' where cs: "cs = NL # cs'"
            by (cases cs) auto
          have t0: "takeWhile is_nl cs' = []"
            using False c cs by (auto simp: is_nl_def Suc_le_eq split: if_splits)
          then have "cs' = [] \<or> hd cs' \<noteq> NL"
            by (cases cs') (auto simp: is_nl_def split: if_splits)
          then have "collapse_newlines cs' = [] \<or> hd (collapse_newlines cs') \<noteq> NL"
            by (rule hd_collapse_newlines)
          moreover have "collapse_newlines cs = NL # collapse_newlines cs'"
            using cs t0 by (simp add: collapse_newlines_Cons)
          then have "collapse_newlines cs' = NL # v"
            using cc by simp
          ultimately show False
            by simp
        qed
      qed
    qed
  qed
qed

lemma clean_text_no_triple: "clean_text raw \<noteq> u @ [NL, NL, NL] @ v"
proof
  let ?s = "collapse_newlines (fix_recitals (clean_lines (remove_bars (remove_borders raw))))"
  assume "clean_text raw = u @ [NL, NL, NL] @ v"
  then have "dropWhile (\<lambda>c. c = NL) ?s = u @ [NL, NL, NL] @ v"
    by (simp add: clean_text_def lstrip_nl_def)
  then have "?s = (takeWhile (\<lambda>c. c = NL) ?s @ u) @ NL # NL # NL # v"
    using takeWhile_dropWhile_id [of "\<lambda>c. c = NL" ?s] by simp
  then show False
    using collapse_newlines_no_triple by blast
qed


section \<open>The recital-prefix step\<close>

lemma re_sub_from_Nil [simp]: "re_sub_from m repl b [] = []"
  by (simp add: re_sub_from_def)

lemma re_sub_from_Cons:
  assumes "consuming m"
  shows "re_sub_from m repl b (c # cs) =
     (case m (b, c # cs) of
        None \<Rightarrow> c # re_sub_from m repl (c = NL) cs
      | Some (g, (b', r)) \<Rightarrow> repl g @ re_sub_from m repl b' r)"
  by (simp add: re_sub_from_def scan_Cons [OF assms] split: option.splits)

lemma fix_recitals_eq: "fix_recitals s = re_sub_from re_recital_fix recital_repl True s"
  by (simp add: fix_recitals_def re_sub_def)

lemma takeWhile_before: "\<not> P a \<Longrightarrow> takeWhile P (p @ a # x) = takeWhile P p"
  by (induction p) auto

lemma dropWhile_before: "\<not> P a \<Longrightarrow> dropWhile P (p @ a # x) = dropWhile P p @ a # x"
  by (induction p) auto

lemma takeWhile_all:
  assumes "\<forall>x\<in>set xs. P x" and "ys = [] \<or> \<not> P (hd ys)"
  shows "takeWhile P (xs @ ys) = xs"
proof (cases ys)
  case Nil
  then show ?thesis using assms(1) by simp
next
  case (Cons a r)
  then have "\<not> P a" using assms(2) by simp
  then show ?thesis using assms(1) Cons by (induction xs) auto
qed

lemma dropWhile_all:
  assumes "\<forall>x\<in>set xs. P x" and "ys = [] \<or> \<not> P (hd ys)"
  shows "dropWhile P (xs @ ys) = ys"
proof (cases ys)
  case Nil
  then show ?thesis using assms(1) by simp
next
  case (Cons a r)
  then have "\<not> P a" using assms(2) by simp
  then show ?thesis using assms(1) Cons by (induction xs) auto
qed

lemma not_space_paren [simp]: "\<not> is_space 40" "\<not> is_space 41"
  by (simp_all add: is_space_def)

text \<open>The recital pattern at a marker \<open>(ds)\<close> followed by the white space \<open>ws\<close>.\<close>

lemma re_recital_fix_marker:
  assumes "ds \<noteq> []" and "\<forall>d\<in>set ds. is_digit d" and "\<forall>w\<in>set ws. is_space w"
    and "rest = [] \<or> \<not> is_space (hd rest)"
  shows "re_recital_fix (True, 40 # ds @ 41 # ws @ rest) =
     Some (ds, (ws \<noteq> [] \<and> last ws = NL), rest)"
proof -
  have 1: "takeWhile is_digit (ds @ 41 # ws @ rest) = ds"
    by (rule takeWhile_all) (use assms(2) in simp_all)
  have 2: "dropWhile is_digit (ds @ 41 # ws @ rest) = 41 # ws @ rest"
    by (rule dropWhile_all) (use assms(2) in simp_all)
  have 3: "takeWhile is_space (ws @ rest) = ws" "dropWhile is_space (ws @ rest) = rest"
    by (rule takeWhile_all dropWhile_all; use assms(3,4) in blast)+
  show ?thesis
    unfolding re_recital_fix_eq using assms(1) by (simp add: 1 2 3)
qed

text \<open>A match of the recital pattern, when there is one, starts at an opening bracket.\<close>

lemma re_recital_fix_SomeD:
  assumes "re_recital_fix (b, t) = Some (ds, (b', r))"
  shows "b \<and> (\<exists>ws. t = 40 # ds @ 41 # ws @ r \<and> ds \<noteq> [] \<and> (\<forall>d\<in>set ds. is_digit d)
           \<and> (\<forall>w\<in>set ws. is_space w) \<and> (r = [] \<or> \<not> is_space (hd r))
           \<and> b' = (ws \<noteq> [] \<and> last ws = NL))"
proof (cases t)
  case Nil
  then show ?thesis using assms by (simp add: re_recital_fix_eq)
next
  case (Cons c t1)
  have g: "b \<and> c = 40 \<and> takeWhile is_digit t1 \<noteq> []"
    using assms Cons by (simp add: re_recital_fix_eq split: if_splits)
  show ?thesis
  proof (cases "dropWhile is_digit t1")
    case Nil
    then show ?thesis
      using assms Cons g by (simp add: re_recital_fix_eq del: dropWhile_eq_Nil_conv)
  next
    case d: (Cons x r2)
    have x: "x = 41"
      using assms Cons g d by (simp add: re_recital_fix_eq split: if_splits)
    have ds: "ds = takeWhile is_digit t1" and r: "r = dropWhile is_space r2"
      and b': "b' = (takeWhile is_space r2 \<noteq> [] \<and> last (takeWhile is_space r2) = NL)"
      using assms Cons g d x by (simp_all add: re_recital_fix_eq)
    have "t1 = ds @ 41 # takeWhile is_space r2 @ r"
      using takeWhile_dropWhile_id [of is_digit t1] takeWhile_dropWhile_id [of is_space r2]
        d ds r x by simp
    then have 1: "t = 40 # ds @ 41 # takeWhile is_space r2 @ r"
      using Cons g by simp
    have 2: "ds \<noteq> []"
      using g ds by simp
    have 3: "\<forall>d\<in>set ds. is_digit d"
      using ds by (auto dest: set_takeWhileD)
    have 4: "\<forall>w\<in>set (takeWhile is_space r2). is_space w"
      by (auto dest: set_takeWhileD)
    have 5: "r = [] \<or> \<not> is_space (hd r)"
      using hd_dropWhile [of is_space r2] r by auto
    show ?thesis
      by (intro conjI exI [of _ "takeWhile is_space r2"]) (use g 1 2 3 4 5 b' in simp_all)
  qed
qed

lemma count_recital_repl: "\<forall>d\<in>set ds. is_digit d \<Longrightarrow> count_list (recital_repl ds) NL = 0"
  by (auto simp: recital_repl_def lit_def count_list_0_iff)

text \<open>The substitution never adds a newline.\<close>

lemma count_fix_recitals:
  "count_list (re_sub_from re_recital_fix recital_repl b t) NL \<le> count_list t NL"
proof (induction t arbitrary: b rule: length_induct)
  case (1 t)
  show ?case
  proof (cases t)
    case Nil
    then show ?thesis by simp
  next
    case (Cons c cs)
    show ?thesis
    proof (cases "re_recital_fix (b, t)")
      case None
      then show ?thesis
        using 1 [rule_format, of cs] Cons
        by (simp add: re_sub_from_Cons [OF consuming_re_recital_fix])
    next
      case (Some x)
      obtain ds b' r where x: "x = (ds, (b', r))"
        by (metis prod.collapse)
      from re_recital_fix_SomeD [OF Some [unfolded x]] obtain ws where
        t: "t = 40 # ds @ 41 # ws @ r" and dd: "\<forall>d\<in>set ds. is_digit d"
        by blast
      have "length r < length t"
        using t by simp
      then have "count_list (re_sub_from re_recital_fix recital_repl b' r) NL \<le> count_list r NL"
        using 1 by blast
      moreover have "count_list r NL \<le> count_list t NL"
        using t by simp
      ultimately show ?thesis
        using Some x Cons count_recital_repl [OF dd]
        by (simp add: re_sub_from_Cons [OF consuming_re_recital_fix])
    qed
  qed
qed

lemma rf_Cons:
  "rf b (c # cs) =
     (case re_recital_fix (b, c # cs) of
        None \<Rightarrow> c # rf (c = NL) cs
      | Some (g, (b', r)) \<Rightarrow> recital_repl g @ rf b' r)"
  by (rule re_sub_from_Cons [OF consuming_re_recital_fix])

text \<open>
  The scan arrives at every opening bracket that starts a line with the line-start flag
  set: no earlier match runs over it, since a bracket is neither a digit nor white space.
\<close>

lemma fix_reaches:
  assumes "(pre = [] \<longrightarrow> b) \<and> (pre \<noteq> [] \<longrightarrow> last pre = NL)"
  shows "\<exists>u. rf b (pre @ 40 # x) = u @ rf True (40 # x) \<and> count_list u NL \<le> count_list pre NL"
  using assms
proof (induction pre arbitrary: b rule: length_induct)
  case (1 pre)
  show ?case
  proof (cases pre)
    case Nil
    then have b using 1(2) by simp
    then show ?thesis using Nil by simp
  next
    case (Cons c p')
    have lastp: "p' \<noteq> [] \<Longrightarrow> last p' = NL" and lastc: "p' = [] \<Longrightarrow> c = NL"
      using 1(2) Cons by auto
    show ?thesis
    proof (cases "re_recital_fix (b, c # p' @ 40 # x)")
      case None
      have "(p' = [] \<longrightarrow> c = NL) \<and> (p' \<noteq> [] \<longrightarrow> last p' = NL)"
        using lastp lastc by blast
      with 1(1) [rule_format, of p' "c = NL"] Cons obtain u where
        u: "rf (c = NL) (p' @ 40 # x) = u @ rf True (40 # x)" "count_list u NL \<le> count_list p' NL"
        by auto
      have "rf b (pre @ 40 # x) = (c # u) @ rf True (40 # x)"
        using None u(1) Cons by (simp add: rf_Cons)
      moreover have "count_list (c # u) NL \<le> count_list pre NL"
        using u(2) Cons by simp
      ultimately show ?thesis by blast
    next
      case (Some y)
      obtain ds b' r where y: "y = (ds, (b', r))"
        by (metis prod.collapse)
      from re_recital_fix_SomeD [OF Some [unfolded y]] obtain ws where
        eq: "c # p' @ 40 # x = 40 # ds @ 41 # ws @ r" and dd: "\<forall>d\<in>set ds. is_digit d"
        and ww: "\<forall>w\<in>set ws. is_space w" and b': "b' = (ws \<noteq> [] \<and> last ws = NL)"
        by blast
      have "p' @ 40 # x = (ds @ 41 # ws) @ r"
        using eq by simp
      then obtain us where us: "p' = (ds @ 41 # ws) @ us \<and> us @ 40 # x = r
          \<or> p' @ us = ds @ 41 # ws \<and> 40 # x = us @ r"
        unfolding append_eq_append_conv2 by blast
      have no40: "40 \<notin> set (ds @ 41 # ws)"
        using dd ww by auto
      obtain q where q: "p' = ds @ 41 # ws @ q" and r: "r = q @ 40 # x"
      proof (cases "p' = (ds @ 41 # ws) @ us \<and> us @ 40 # x = r")
        case True
        then show ?thesis using that by simp
      next
        case False
        then have o: "p' @ us = ds @ 41 # ws" "40 # x = us @ r"
          using us by blast+
        show ?thesis
        proof (cases us)
          case Nil
          then show ?thesis using o that [of "[]"] by simp
        next
          case (Cons z zs)
          then have "z = 40" using o(2) by simp
          then have "40 \<in> set (p' @ us)" using Cons by simp
          then show ?thesis using o(1) no40 by simp
        qed
      qed
      have "(q = [] \<longrightarrow> b') \<and> (q \<noteq> [] \<longrightarrow> last q = NL)"
        using lastp q b' by (auto split: if_splits)
      moreover have "length q < length pre"
        using q Cons by simp
      ultimately obtain u where
        u: "rf b' (q @ 40 # x) = u @ rf True (40 # x)" "count_list u NL \<le> count_list q NL"
        using 1(1) [rule_format, of q b'] by blast
      have "rf b (pre @ 40 # x) = (recital_repl ds @ u) @ rf True (40 # x)"
        using Some y u(1) r Cons by (simp add: rf_Cons)
      moreover have "count_list (recital_repl ds @ u) NL \<le> count_list pre NL"
        using u(2) q Cons count_recital_repl [OF dd] by simp
      ultimately show ?thesis by blast
    qed
  qed
qed

lemma rf_keeps_first: "\<exists>v. rf b (c # cs) = c # v"
proof (cases "re_recital_fix (b, c # cs)")
  case None
  then show ?thesis by (simp add: rf_Cons)
next
  case (Some y)
  obtain ds b' r where y: "y = (ds, (b', r))"
    by (metis prod.collapse)
  from re_recital_fix_SomeD [OF Some [unfolded y]] have "c = 40"
    by auto
  then show ?thesis
    using Some y by (simp add: rf_Cons recital_repl_def lit_def)
qed

lemma fix_recitals_marker:
  assumes "pre = [] \<or> last pre = NL" and "ds \<noteq> []" and "\<forall>d\<in>set ds. is_digit d"
    and "\<forall>w\<in>set ws. is_space w" and "rest = [] \<or> \<not> is_space (hd rest)"
  shows "\<exists>u. fix_recitals (pre @ lit ''('' @ ds @ lit '')'' @ ws @ rest) =
          u @ recital_repl ds @ rf (ws \<noteq> [] \<and> last ws = NL) rest
        \<and> count_list u NL \<le> count_list pre NL"
proof -
  have "(pre = [] \<longrightarrow> True) \<and> (pre \<noteq> [] \<longrightarrow> last pre = NL)"
    using assms(1) by blast
  from fix_reaches [OF this, of "ds @ 41 # ws @ rest"] obtain u where
    u: "rf True (pre @ 40 # ds @ 41 # ws @ rest) = u @ rf True (40 # ds @ 41 # ws @ rest)"
      "count_list u NL \<le> count_list pre NL"
    by blast
  have "rf True (40 # ds @ 41 # ws @ rest) = recital_repl ds @ rf (ws \<noteq> [] \<and> last ws = NL) rest"
    by (simp add: rf_Cons re_recital_fix_marker [OF assms(2-5)])
  then show ?thesis
    using u by (auto simp: fix_recitals_eq lit_def)
qed

lemma collapse_newlines_no_nl:
  "NL \<notin> set x \<Longrightarrow> collapse_newlines (x @ v) = x @ collapse_newlines v"
  by (induction x) (auto simp: collapse_newlines_Cons)

lemma trailing_newlines: "\<exists>a n. u = a @ replicate n NL \<and> (a = [] \<or> last a \<noteq> NL)"
proof (induction u rule: rev_induct)
  case Nil
  then show ?case by simp
next
  case (snoc c u)
  show ?case
  proof (cases "c = NL")
    case True
    from snoc obtain a n where "u = a @ replicate n NL" "a = [] \<or> last a \<noteq> NL"
      by blast
    then have "u @ [c] = a @ replicate (Suc n) NL \<and> (a = [] \<or> last a \<noteq> NL)"
      using True by (simp add: replicate_append_same)
    then show ?thesis by blast
  next
    case False
    then have "u @ [c] = (u @ [c]) @ replicate 0 NL \<and> (u @ [c] = [] \<or> last (u @ [c]) \<noteq> NL)"
      by simp
    then show ?thesis by blast
  qed
qed

lemma collapse_keeps_infix:
  assumes "NL \<notin> set x" and "x \<noteq> []"
  shows "\<exists>u'. collapse_newlines (u @ x @ v) = u' @ x @ collapse_newlines v"
proof -
  obtain a n where u: "u = a @ replicate n NL" and a: "a = [] \<or> last a \<noteq> NL"
    using trailing_newlines by blast
  have "hd (x @ v) \<noteq> NL"
    using assms by (cases x) auto
  then have "x @ v = [] \<or> hd (x @ v) \<noteq> NL"
    by simp
  from collapse_newlines_append_run [OF a this, of n]
  have "collapse_newlines (u @ x @ v) =
      (collapse_newlines a @ replicate (if 3 \<le> n then 2 else n) NL) @ x @ collapse_newlines v"
    using u assms(1) by (simp add: collapse_newlines_no_nl)
  then show ?thesis by blast
qed

lemma lstrip_keeps_infix:
  assumes "NL \<notin> set x" and "x \<noteq> []"
  shows "\<exists>u'. lstrip_nl (u @ x @ v) = u' @ x @ v"
proof -
  obtain c x' where x: "x = c # x'" and "c \<noteq> NL"
    using assms by (cases x) auto
  then have "dropWhile (\<lambda>c. c = NL) (u @ c # (x' @ v)) = dropWhile (\<lambda>c. c = NL) u @ c # (x' @ v)"
    by (intro dropWhile_before) simp
  then show ?thesis
    using x by (simp add: lstrip_nl_def)
qed

lemma clean_text_keeps_infix:
  assumes "fix_recitals (clean_lines (remove_bars (remove_borders raw))) = u @ x @ v"
    and "NL \<notin> set x" and "x \<noteq> []"
  shows "\<exists>u' v'. clean_text raw = u' @ x @ v' \<and> (v = [] \<longrightarrow> v' = [])"
proof -
  obtain u1 where 1: "collapse_newlines (u @ x @ v) = u1 @ x @ collapse_newlines v"
    using collapse_keeps_infix [OF assms(2,3)] by blast
  obtain u2 where 2: "lstrip_nl (u1 @ x @ collapse_newlines v) = u2 @ x @ collapse_newlines v"
    using lstrip_keeps_infix [OF assms(2,3)] by blast
  have "clean_text raw = u2 @ x @ collapse_newlines v"
    by (simp add: clean_text_def assms(1) 1 2)
  moreover have "v = [] \<longrightarrow> collapse_newlines v = []"
    by simp
  ultimately show ?thesis by blast
qed

lemma no_nl_recital_repl: "\<forall>d\<in>set ds. is_digit d \<Longrightarrow> NL \<notin> set (recital_repl ds)"
  by (auto simp: recital_repl_def lit_def)

lemma is_space_NL [simp]: "is_space NL"
  by (simp add: is_space_def)

section \<open>The statistics\<close>

lemma digits_of_nat_shape: "digits_of_nat n \<noteq> [] \<and> (\<forall>c \<in> set (digits_of_nat n). 48 \<le> c \<and> c \<le> 57)"
proof (induction n rule: digits_of_nat.induct)
  case (1 n)
  show ?case
  proof (cases "n < 10")
    case True
    then show ?thesis
      by (subst digits_of_nat.simps, subst (2) digits_of_nat.simps) simp
  next
    case False
    have "n mod 10 < 10" by simp
    then have "48 + n mod 10 \<le> 57" by linarith
    then show ?thesis
      using False 1 by (subst digits_of_nat.simps, subst (2) digits_of_nat.simps) simp
  qed
qed

lemma py_str_not_none: "py_str n @ rest \<noteq> lit ''none''"
proof -
  have "py_str n \<noteq> [] \<and> (hd (py_str n) = 45 \<or> (48 \<le> hd (py_str n) \<and> hd (py_str n) \<le> 57))"
    using digits_of_nat_shape [of "nat n"] by (auto simp: py_str_def)
  then have "py_str n @ rest \<noteq> [] \<and> hd (py_str n @ rest) \<noteq> 110"
    by auto
  moreover have "hd (lit ''none'') = 110"
    by (simp add: lit_def)
  ultimately show ?thesis
    by metis
qed

lemma unique_numbers_set: "set (unique_numbers ms) = set (map py_int ms)"
  by (simp add: unique_numbers_def)

lemma unique_numbers_length: "length (unique_numbers ms) = card (set (map py_int ms))"
  by (simp add: unique_numbers_def length_remdups_card_conv)

lemma format_range_eq:
  "format_range u =
     (if set u = {} then lit ''none''
      else py_str (Min (set u)) @ lit ''-'' @ py_str (Max (set u)))"
proof (cases u)
  case Nil
  then show ?thesis by (simp add: format_range_def)
next
  case (Cons x xs)
  have "fold min xs x = Min (set (x # xs))" "fold max xs x = Max (set (x # xs))"
    by (simp_all only: Min.set_eq_fold Max.set_eq_fold)
  then show ?thesis
    using Cons by (simp add: format_range_def)
qed

lemma format_range_none: "format_range u = lit ''none'' \<longleftrightarrow> set u = {}"
  by (simp add: format_range_eq py_str_not_none)


section \<open>The command line\<close>

lemma main_too_few: "length args < 2 \<Longrightarrow>
  main json_dumps fs prog args = \<lparr> final_fs = fs, stdout = [usage_line prog], exit_status = 1 \<rparr>"
proof (cases args)
  case Nil
  then show ?thesis by simp
next
  case (Cons a as)
  assume "length args < 2"
  then have "as = []" using Cons by simp
  then show ?thesis using Cons by simp
qed

lemma clean_gdpr_text_ok:
  assumes "content fs input_path = Some raw" and "writable fs output_path"
  shows "clean_gdpr_text fs input_path output_path =
     Inr (fs\<lparr>content := (content fs)(output_path \<mapsto> clean_text (universal_newlines raw))\<rparr>,
          compute_stats (clean_text (universal_newlines raw)))"
  using assms by (simp add: clean_gdpr_text_def read_text_def write_text_def Let_def)

lemma generate_expected_json_ok:
  assumes "content fs text_path = Some s" and "writable fs json_path"
  shows "\<exists>fs'. generate_expected_json json_dumps fs text_path json_path = Inr fs'"
  using assms by (simp add: generate_expected_json_def read_text_def write_text_def)

lemma main_proceeds:
  assumes "args = input_path # output_path # rest"
    and "content fs input_path = Some raw"
    and "writable fs output_path"
    and "2 \<le> length rest \<and> rest ! 0 = lit ''--generate-expected'' \<longrightarrow> writable fs (rest ! 1)"
  shows "exit_status (main json_dumps fs prog args) = 0
     \<and> take 8 (stdout (main json_dumps fs prog args)) =
         report input_path (compute_stats (clean_text (universal_newlines raw))) output_path
     \<and> content (final_fs (main json_dumps fs prog args)) output_path \<noteq> None"
proof -
  let ?s = "clean_text (universal_newlines raw)"
  let ?st = "compute_stats ?s"
  let ?fs1 = "fs\<lparr>content := (content fs)(output_path \<mapsto> ?s)\<rparr>"
  let ?printed = "report input_path ?st output_path"
  have c: "clean_gdpr_text fs input_path output_path = Inr (?fs1, ?st)"
    by (rule clean_gdpr_text_ok [OF assms(2,3)])
  have len: "length ?printed = 8"
    by (simp add: report_def)
  show ?thesis
  proof (cases "2 \<le> length rest \<and> rest ! 0 = lit ''--generate-expected''")
    case True
    then have "writable ?fs1 (rest ! 1)"
      using assms(4) by simp
    moreover have "content ?fs1 output_path = Some ?s"
      by simp
    ultimately obtain fs2 where
      g: "generate_expected_json json_dumps ?fs1 output_path (rest ! 1) = Inr fs2"
      using generate_expected_json_ok by blast
    then have out: "content fs2 output_path \<noteq> None"
      by (auto simp: generate_expected_json_def read_text_def write_text_def
            split: if_splits option.splits)
    have "main json_dumps fs prog args =
        \<lparr> final_fs = fs2,
          stdout = ?printed @ [lit ''\<newline>Generating expected output JSON...'',
                      lit ''Expected output written to '' @ rest ! 1],
          exit_status = 0 \<rparr>"
      unfolding assms(1) main.simps c sum.case prod.case Let_def g
      using True by (simp only: if_True simp_thms)
    moreover have "take 8 (?printed @ [lit ''\<newline>Generating expected output JSON...'',
                      lit ''Expected output written to '' @ rest ! 1]) = ?printed"
      using len by simp
    ultimately show ?thesis
      using out by (simp only: outcome.simps simp_thms)
  next
    case False
    have "main json_dumps fs prog args =
        \<lparr> final_fs = ?fs1, stdout = ?printed, exit_status = 0 \<rparr>"
      unfolding assms(1) main.simps c sum.case prod.case Let_def
      using False by (simp only: if_False simp_thms)
    moreover have "take 8 ?printed = ?printed"
      using len by simp
    moreover have "content ?fs1 output_path \<noteq> None"
      by simp
    ultimately show ?thesis
      by (simp only: outcome.simps simp_thms)
  qed
qed


section \<open>The articles of the extractor\<close>

lemma seen_articles_ok: "seen_ok seen \<Longrightarrow> seen_ok (seen_articles seen arts)"
proof (induction arts arbitrary: seen)
  case Nil
  then show ?case by simp
next
  case (Cons art arts)
  show ?case
  proof (cases "art_number art \<in> fst ` set seen")
    case True
    then show ?thesis using Cons by simp
  next
    case False
    then have "seen_ok (seen @ [(art_number art, art)])"
      using Cons.prems by (auto simp: seen_ok_def)
    then show ?thesis using False Cons.IH by simp
  qed
qed

lemma seen_number: "seen_ok seen \<Longrightarrow> x \<in> set seen \<Longrightarrow> art_number (snd x) = fst x"
  by (cases x) (auto simp: seen_ok_def)

lemma filter_number_unseen:
  assumes "seen_ok seen" and "n \<notin> fst ` set seen"
  shows "filter (\<lambda>a. art_number a = n) (map snd seen) = []"
proof -
  have "art_number (snd x) \<noteq> n" if "x \<in> set seen" for x
    using seen_number [OF assms(1) that] assms(2) that by auto
  then show ?thesis
    by (auto simp: filter_empty_conv)
qed

lemma seen_articles_filter:
  assumes "seen_ok seen"
  shows "filter (\<lambda>a. art_number a = n) (map snd (seen_articles seen arts)) =
     (if n \<in> fst ` set seen then filter (\<lambda>a. art_number a = n) (map snd seen)
      else (case find (\<lambda>a. art_number a = n) arts of None \<Rightarrow> [] | Some a \<Rightarrow> [a]))"
  using assms
proof (induction arts arbitrary: seen)
  case Nil
  then show ?case using filter_number_unseen [of seen n] by simp
next
  case (Cons art arts)
  show ?case
  proof (cases "art_number art \<in> fst ` set seen")
    case True
    then show ?thesis using Cons by auto
  next
    case False
    let ?seen = "seen @ [(art_number art, art)]"
    have ok: "seen_ok ?seen"
      using Cons.prems False by (auto simp: seen_ok_def)
    have none: "filter (\<lambda>a. art_number a = n) (map snd seen) = []" if "n \<notin> fst ` set seen"
      using filter_number_unseen [OF Cons.prems that] .
    show ?thesis
      using False Cons.IH [OF ok] none by auto
  qed
qed

lemma extract_articles_filter:
  "filter (\<lambda>a. art_number a = n) (extract_articles s) =
     (case find (\<lambda>a. art_number a = n) (article_matches s) of None \<Rightarrow> [] | Some a \<Rightarrow> [a])"
proof -
  have "seen_ok []" by (simp add: seen_ok_def)
  from seen_articles_filter [OF this, of n "article_matches s"]
  show ?thesis
    by (simp add: extract_articles_def filter_sort split: option.splits)
qed

lemma extract_articles_sorted:
  "sorted (map art_number (extract_articles s)) \<and> distinct (map art_number (extract_articles s))"
proof -
  let ?seen = "seen_articles [] (article_matches s)"
  have "seen_ok []" by (simp add: seen_ok_def)
  then have ok: "seen_ok ?seen" by (rule seen_articles_ok)
  have eq: "map (\<lambda>x. art_number (snd x)) ?seen = map fst ?seen"
    by (rule map_cong [OF refl]) (rule seen_number [OF ok])
  have "distinct (map fst ?seen)"
    using ok by (simp add: seen_ok_def)
  then have "distinct (map (\<lambda>x. art_number (snd x)) ?seen)"
    by (simp only: eq)
  then have "distinct (map art_number (map snd ?seen))"
    by (simp add: comp_def)
  then have "distinct (map art_number (extract_articles s))"
    unfolding extract_articles_def
    by (metis distinct_map distinct_sort set_sort)
  then show ?thesis
    by (simp add: extract_articles_def)
qed


section \<open>Where the matches of a scan come from\<close>

lemma scan_sound:
  assumes "consuming m" and "Inr g \<in> set (scan m b t)"
  shows "\<exists>u s cur. t = u @ s \<and> m ((if u = [] then b else last u = NL), s) = Some (g, cur)"
  using assms(2)
proof (induction t arbitrary: b rule: length_induct)
  case (1 t)
  show ?case
  proof (cases t)
    case Nil
    then show ?thesis using 1(2) by simp
  next
    case (Cons c cs)
    show ?thesis
    proof (cases "m (b, t)")
      case None
      then have "Inr g \<in> set (scan m (c = NL) cs)"
        using 1(2) Cons by (simp add: scan_Cons [OF assms(1)])
      with 1(1) [rule_format, of cs "c = NL"] Cons obtain u s cur where
        "cs = u @ s" "m ((if u = [] then c = NL else last u = NL), s) = Some (g, cur)"
        by auto
      then have "t = (c # u) @ s
          \<and> m ((if c # u = [] then b else last (c # u) = NL), s) = Some (g, cur)"
        using Cons by (cases "u = []") simp_all
      then show ?thesis by (intro exI)
    next
      case (Some y)
      obtain g' b' r where y: "y = (g', (b', r))"
        by (metis prod.collapse)
      from consumingD [OF assms(1) Some [unfolded y]] obtain p where
        p: "p \<noteq> []" "t = p @ r" "b' = (last p = NL)"
        by blast
      have "Inr g \<in> set (Inr g' # scan m b' r)"
        using 1(2) Cons Some y by (simp add: scan_Cons [OF assms(1)])
      then consider "g = g'" | "Inr g \<in> set (scan m b' r)"
        by auto
      then show ?thesis
      proof cases
        case 1
        then have "t = [] @ t \<and> m ((if ([]::str) = [] then b else last [] = NL), t) = Some (g, (b', r))"
          using Some y by simp
        then show ?thesis by (intro exI)
      next
        case 2
        have "length r < length t"
          using p by simp
        with \<open>\<forall>ys. length ys < length t \<longrightarrow> _\<close> 2 obtain u s cur where
          "r = u @ s" "m ((if u = [] then b' else last u = NL), s) = Some (g, cur)"
          by blast
        then have "t = (p @ u) @ s
            \<and> m ((if p @ u = [] then b else last (p @ u) = NL), s) = Some (g, cur)"
          using p by (cases "u = []") simp_all
        then show ?thesis by (intro exI)
      qed
    qed
  qed
qed

lemma re_finditer_sound:
  assumes "consuming m" and "g \<in> set (re_finditer m t)"
  shows "\<exists>u s cur. t = u @ s \<and> m ((u = [] \<or> last u = NL), s) = Some (g, cur)"
proof -
  from assms(2) have "Inr g \<in> set (scan m True t)"
    by (auto simp: re_finditer_def split: sum.splits)
  from scan_sound [OF assms(1) this] obtain u s cur where
    "t = u @ s" "m ((if u = [] then True else last u = NL), s) = Some (g, cur)"
    by blast
  then have "t = u @ s \<and> m ((u = [] \<or> last u = NL), s) = Some (g, cur)"
    by (cases "u = []") simp_all
  then show ?thesis by (intro exI)
qed

text \<open>What a successful match says about the text, construct by construct.\<close>

lemma accept_SomeD: "accept g cur = Some res \<Longrightarrow> res = (g, cur)"
  by (simp add: accept_def)

lemma bol_k_SomeD: "bol_k k (b, t) = Some res \<Longrightarrow> b \<and> k (b, t) = Some res"
  by (simp add: bol_k_def split: if_splits)

lemma eol_k_SomeD: "eol_k k (b, t) = Some res \<Longrightarrow> (t = [] \<or> hd t = NL) \<and> k (b, t) = Some res"
  by (simp add: eol_k_def split: if_splits)

lemma lit_k_SomeD:
  assumes "lit_k p k (b, t) = Some res"
  shows "\<exists>t'. t = p @ t' \<and> k ((if p = [] then b else last p = NL), t') = Some res"
proof -
  have "take (length p) t = p" and k: "k ((if p = [] then b else last p = NL), drop (length p) t) = Some res"
    using assms by (auto simp: lit_k_eq split: if_splits)
  then have "t = p @ drop (length p) t"
    using append_take_drop_id [of "length p" t] by simp
  then show ?thesis using k by blast
qed

lemma class_k_SomeD:
  "class_k P k (b, t) = Some res \<Longrightarrow> \<exists>c t'. t = c # t' \<and> P c \<and> k (c = NL, t') = Some res"
  by (cases t) (auto simp: class_k_def split: if_splits)

lemma split_at_SomeD:
  assumes "split_at k (b, t) i = Some res" and "i \<le> length (takeWhile P t)"
  shows "\<exists>run t'. t = run @ t' \<and> length run = i \<and> (\<forall>c\<in>set run. P c)
           \<and> k run ((if run = [] then b else last run = NL), t') = Some res"
proof -
  have le: "i \<le> length t"
    using assms(2) length_takeWhile_le [of P t] by simp
  have "take i (takeWhile P t @ dropWhile P t) = take i (takeWhile P t)"
    using assms(2) by (simp only: take_append diff_is_0_eq' take_0 append_Nil2)
  then have "take i t = take i (takeWhile P t)"
    by simp
  then have "set (take i t) \<subseteq> set (takeWhile P t)"
    using set_take_subset [of i "takeWhile P t"] by simp
  then have all: "\<forall>c\<in>set (take i t). P c"
    by (auto dest: set_takeWhileD)
  have l: "length (take i t) = i"
    using le by simp
  have "split_at k (b, t) i = k (take i t)
      ((if take i t = [] then b else last (take i t) = NL), drop (length (take i t)) t)"
    by (simp only: split_at_def snd_conv advance.simps)
  then have "k (take i t) ((if take i t = [] then b else last (take i t) = NL), drop i t) = Some res"
    using assms(1) unfolding l by simp
  moreover have "t = take i t @ drop i t" "length (take i t) = i"
    using le by simp_all
  ultimately have "t = take i t @ drop i t \<and> length (take i t) = i \<and> (\<forall>c\<in>set (take i t). P c)
      \<and> k (take i t) ((if take i t = [] then b else last (take i t) = NL), drop i t) = Some res"
    using all by simp
  then show ?thesis by (intro exI)
qed

lemma atleast_k_SomeD:
  assumes "atleast_k m P k (b, t) = Some res"
  shows "\<exists>run t'. t = run @ t' \<and> m \<le> length run \<and> (\<forall>c\<in>set run. P c)
           \<and> k run ((if run = [] then b else last run = NL), t') = Some res"
proof -
  from assms obtain i where i: "i \<in> set (rev [m ..< Suc (run_length P (b, t))])"
    and s: "split_at k (b, t) i = Some res"
    unfolding atleast_k_def by (blast dest: first_some_SomeD)
  then have "m \<le> i" "i \<le> length (takeWhile P t)"
    by (auto simp: run_length_def)
  from split_at_SomeD [OF s this(2)] obtain run t' where
    r: "t = run @ t'" "length run = i" "\<forall>c\<in>set run. P c"
      "k run ((if run = [] then b else last run = NL), t') = Some res"
    by blast
  have "t = run @ t' \<and> m \<le> length run \<and> (\<forall>c\<in>set run. P c)
      \<and> k run ((if run = [] then b else last run = NL), t') = Some res"
    using r \<open>m \<le> i\<close> by simp
  then show ?thesis by (intro exI)
qed

lemma lazy_plus_k_SomeD:
  assumes "lazy_plus_k P k (b, t) = Some res"
  shows "\<exists>run t'. t = run @ t' \<and> run \<noteq> [] \<and> (\<forall>c\<in>set run. P c)
           \<and> k run (last run = NL, t') = Some res"
proof -
  from assms obtain i where i: "i \<in> set [1 ..< Suc (run_length P (b, t))]"
    and s: "split_at k (b, t) i = Some res"
    unfolding lazy_plus_k_def by (blast dest: first_some_SomeD)
  then have "1 \<le> i" "i \<le> length (takeWhile P t)"
    by (auto simp: run_length_def)
  from split_at_SomeD [OF s this(2)] obtain run t' where
    r: "t = run @ t'" "length run = i" "\<forall>c\<in>set run. P c"
      "k run ((if run = [] then b else last run = NL), t') = Some res"
    by blast
  have ne: "run \<noteq> []"
    using r(2) \<open>1 \<le> i\<close> by auto
  have "t = run @ t' \<and> run \<noteq> [] \<and> (\<forall>c\<in>set run. P c)
      \<and> k run (last run = NL, t') = Some res"
    using r ne by simp
  then show ?thesis by (intro exI)
qed

lemma find_from_Some:
  assumes "find_from n sub s = Some i"
  shows "n \<le> i \<and> occurs_at s sub (i - n) \<and> (\<forall>k < i - n. \<not> occurs_at s sub k)"
  using assms
proof (induction s arbitrary: n)
  case Nil
  then show ?case by (auto simp: occurs_at_def split: if_splits)
next
  case (Cons c cs)
  show ?case
  proof (cases "take (length sub) (c # cs) = sub")
    case True
    then have "i = n" using Cons.prems by simp
    moreover have "length (take (length sub) (c # cs)) = length sub"
      using True by simp
    then have "length sub \<le> length (c # cs)"
      by (simp add: min_def split: if_splits)
    ultimately show ?thesis using True by (simp add: occurs_at_def)
  next
    case False
    then have f: "find_from (Suc n) sub cs = Some i"
      using Cons.prems by simp
    from Cons.IH [OF f] have ih: "Suc n \<le> i" "occurs_at cs sub (i - Suc n)"
      "\<forall>k < i - Suc n. \<not> occurs_at cs sub k"
      by blast+
    have shift: "occurs_at (c # cs) sub (Suc k) = occurs_at cs sub k" for k
      by (simp add: occurs_at_def)
    have "i - n = Suc (i - Suc n)"
      using ih(1) by simp
    moreover have "\<not> occurs_at (c # cs) sub 0"
      using False by (simp add: occurs_at_def)
    ultimately show ?thesis
      using ih shift by (auto simp: less_Suc_eq_0_disj)
  qed
qed

lemma find_from_None:
  assumes "find_from n sub s = None"
  shows "\<not> occurs_at s sub k"
  using assms
proof (induction s arbitrary: n k)
  case Nil
  then show ?case by (auto simp: occurs_at_def split: if_splits)
next
  case (Cons c cs)
  then have f: "take (length sub) (c # cs) \<noteq> sub" "find_from (Suc n) sub cs = None"
    by (auto split: if_splits)
  show ?case
  proof (cases k)
    case 0
    then show ?thesis using f(1) by (simp add: occurs_at_def)
  next
    case (Suc k')
    then show ?thesis using Cons.IH [OF f(2), of k'] by (simp add: occurs_at_def)
  qed
qed

lemma py_find_Some:
  "py_find s sub = Some i \<Longrightarrow> occurs_at s sub i \<and> (\<forall>k < i. \<not> occurs_at s sub k)"
  using find_from_Some [of 0 sub s i] by (simp add: py_find_def)

lemma py_find_None: "py_find s sub = None \<Longrightarrow> \<not> occurs_at s sub k"
  using find_from_None [of 0 sub s k] by (simp add: py_find_def)

lemma lit_k_SomeE:
  assumes "lit_k p k (b, t) = Some res"
  obtains t' b' where "t = p @ t'" and "k (b', t') = Some res"
  using lit_k_SomeD [OF assms] that by blast

lemma atleast_k_SomeE:
  assumes "atleast_k m P k (b, t) = Some res"
  obtains run t' b' where "t = run @ t'" and "m \<le> length run" and "\<forall>c\<in>set run. P c"
    and "k run (b', t') = Some res"
  using atleast_k_SomeD [OF assms] that by blast

lemma plus_k_SomeE:
  assumes "plus_k P k (b, t) = Some res"
  obtains run t' b' where "t = run @ t'" and "run \<noteq> []" and "\<forall>c\<in>set run. P c"
    and "k run (b', t') = Some res"
proof -
  from assms [unfolded plus_k_def] obtain run t' b' where
    "t = run @ t'" "1 \<le> length run" "\<forall>c\<in>set run. P c" "k run (b', t') = Some res"
    by (rule atleast_k_SomeE)
  moreover from this have "run \<noteq> []" by auto
  ultimately show ?thesis using that by blast
qed

lemma star_k_SomeE:
  assumes "star_k P k (b, t) = Some res"
  obtains run t' b' where "t = run @ t'" and "\<forall>c\<in>set run. P c"
    and "k run (b', t') = Some res"
  using assms [unfolded star_k_def] by (rule atleast_k_SomeE)

lemma class_k_SomeE:
  assumes "class_k P k (b, t) = Some res"
  obtains c t' where "t = c # t'" and "P c" and "k (c = NL, t') = Some res"
  using class_k_SomeD [OF assms] that by blast

lemma re_definition_SomeD:
  assumes "re_definition (b, t) = Some ((num, trm), cur)"
  shows "\<exists>ws q1 q2 r. t = lit ''('' @ num @ lit '')'' @ ws @ q1 # trm @ q2 # r
           \<and> num \<noteq> [] \<and> (\<forall>d\<in>set num. is_digit d) \<and> (\<forall>w\<in>set ws. is_space w)
           \<and> is_quote q1 \<and> is_quote q2 \<and> trm \<noteq> [] \<and> (\<forall>c\<in>set trm. \<not> is_quote c)"
proof -
  from assms [unfolded re_definition_def] obtain t1 b1 where t1: "t = lit ''('' @ t1"
    and 1: "plus_k is_digit (\<lambda>num. lit_k (lit '')'') (star_k is_space (\<lambda>_.
              class_k is_quote (plus_k not_quote (\<lambda>trm.
                class_k is_quote (accept (num, trm))))))) (b1, t1) = Some ((num, trm), cur)"
    by (rule lit_k_SomeE)
  from 1 obtain n t2 b2 where
    t2: "t1 = n @ t2" "n \<noteq> []" "\<forall>d\<in>set n. is_digit d"
    and 2: "lit_k (lit '')'') (star_k is_space (\<lambda>_.
              class_k is_quote (plus_k not_quote (\<lambda>trm.
                class_k is_quote (accept (n, trm)))))) (b2, t2) = Some ((num, trm), cur)"
    by (rule plus_k_SomeE)
  from 2 obtain t3 b3 where t3: "t2 = lit '')'' @ t3"
    and 3: "star_k is_space (\<lambda>_. class_k is_quote (plus_k not_quote (\<lambda>trm.
                class_k is_quote (accept (n, trm))))) (b3, t3) = Some ((num, trm), cur)"
    by (rule lit_k_SomeE)
  from 3 obtain ws t4 b4 where
    t4: "t3 = ws @ t4" "\<forall>w\<in>set ws. is_space w"
    and 4: "class_k is_quote (plus_k not_quote (\<lambda>trm.
                class_k is_quote (accept (n, trm)))) (b4, t4) = Some ((num, trm), cur)"
    by (rule star_k_SomeE)
  from 4 obtain q1 t5 where t5: "t4 = q1 # t5" "is_quote q1"
    and 5: "plus_k not_quote (\<lambda>trm. class_k is_quote (accept (n, trm))) (q1 = NL, t5) =
              Some ((num, trm), cur)"
    by (rule class_k_SomeE)
  from 5 obtain tr t6 b6 where
    t6: "t5 = tr @ t6" "tr \<noteq> []" "\<forall>c\<in>set tr. not_quote c"
    and 6: "class_k is_quote (accept (n, tr)) (b6, t6) = Some ((num, trm), cur)"
    by (rule plus_k_SomeE)
  from 6 obtain q2 r where t7: "t6 = q2 # r" "is_quote q2"
    and 7: "accept (n, tr) (q2 = NL, r) = Some ((num, trm), cur)"
    by (rule class_k_SomeE)
  from 7 have e: "n = num" "tr = trm"
    by (auto dest: accept_SomeD)
  have "t = lit ''('' @ num @ lit '')'' @ ws @ q1 # trm @ q2 # r
           \<and> num \<noteq> [] \<and> (\<forall>d\<in>set num. is_digit d) \<and> (\<forall>w\<in>set ws. is_space w)
           \<and> is_quote q1 \<and> is_quote q2 \<and> trm \<noteq> [] \<and> (\<forall>c\<in>set trm. \<not> is_quote c)"
    using t1 t2 t3 t4 t5 t6 t7 e by (auto simp: not_quote_def)
  then show ?thesis by (intro exI)
qed

section \<open>The definitions of the extractor\<close>

lemma py_find_None_iff: "py_find s sub = None \<longleftrightarrow> (\<forall>k. \<not> occurs_at s sub k)"
proof
  assume "py_find s sub = None"
  then show "\<forall>k. \<not> occurs_at s sub k"
    using py_find_None by blast
next
  assume a: "\<forall>k. \<not> occurs_at s sub k"
  show "py_find s sub = None"
  proof (cases "py_find s sub")
    case None
    then show ?thesis .
  next
    case (Some i)
    then show ?thesis using py_find_Some [OF Some] a by blast
  qed
qed

lemma slice_position:
  assumes "slice s i j = u @ m @ r" and "m \<noteq> []"
  shows "s = (take i s @ u) @ m @ (r @ drop j s) \<and> i \<le> length (take i s @ u)
           \<and> length (take i s @ u) + length m \<le> j"
proof -
  have ne: "drop i (take j s) \<noteq> []"
    using assms by (auto simp: slice_def)
  then have ij: "i < j" "i < length s"
    by auto
  have "take i (take j s) @ drop i (take j s) = take j s"
    by (rule append_take_drop_id)
  moreover have "take i (take j s) = take i s"
    using ij by (simp add: min_def)
  ultimately have "take j s = take i s @ u @ m @ r"
    using assms(1) by (simp add: slice_def)
  then have 1: "s = (take i s @ u) @ m @ (r @ drop j s)"
    using append_take_drop_id [of j s] by simp
  have "length (drop i (take j s)) = length (take j s) - i"
    by (rule length_drop)
  then have "length (u @ m @ r) = length (take j s) - i"
    using assms(1) by (simp only: slice_def)
  then have "length u + length m \<le> j - i"
    by (simp add: min_def split: if_splits)
  then have 2: "length (take i s @ u) + length m \<le> j"
    using ij by (simp add: min_def)
  have 3: "i \<le> length (take i s @ u)"
    using ij by (simp add: min_def)
  show ?thesis
    using 1 2 3 by blast
qed

lemma definition_entry_origin:
  assumes "py_find s (lit ''\<newline>Article 4\<newline>'') = Some i"
    and "py_find s (lit ''\<newline>Article 5\<newline>'') = Some j"
    and "e \<in> set (definition_entries (extract_expected s))"
  shows "\<exists>u v num ws q1 trm q2.
           s = u @ (lit ''('' @ num @ lit '')'' @ ws @ q1 # trm @ [q2]) @ v
           \<and> i \<le> length u
           \<and> length u + length (lit ''('' @ num @ lit '')'' @ ws @ q1 # trm @ [q2]) \<le> j
           \<and> num \<noteq> [] \<and> (\<forall>d\<in>set num. is_digit d) \<and> (\<forall>w\<in>set ws. is_space w)
           \<and> is_quote q1 \<and> is_quote q2 \<and> trm \<noteq> [] \<and> (\<forall>c\<in>set trm. \<not> is_quote c)
           \<and> e = \<lparr> def_number = py_int num, def_term = strip trm \<rparr>"
proof -
  from assms obtain num trm where g: "(num, trm) \<in> set (re_finditer re_definition (slice s i j))"
    and e: "e = \<lparr> def_number = py_int num, def_term = strip trm \<rparr>"
    by (auto simp: extract_expected_def extract_definitions_def Let_def)
  from re_finditer_sound [OF consuming_re_definition g] obtain u0 sfx cur where
    sl: "slice s i j = u0 @ sfx"
    and m: "re_definition ((u0 = [] \<or> last u0 = NL), sfx) = Some ((num, trm), cur)"
    by blast
  from re_definition_SomeD [OF m] obtain ws q1 q2 r where
    sfx: "sfx = lit ''('' @ num @ lit '')'' @ ws @ q1 # trm @ q2 # r"
    and p: "num \<noteq> []" "\<forall>d\<in>set num. is_digit d" "\<forall>w\<in>set ws. is_space w"
      "is_quote q1" "is_quote q2" "trm \<noteq> []" "\<forall>c\<in>set trm. \<not> is_quote c"
    by blast
  let ?m = "lit ''('' @ num @ lit '')'' @ ws @ q1 # trm @ [q2]"
  have "slice s i j = u0 @ ?m @ r"
    using sl sfx by simp
  moreover have "?m \<noteq> []"
    by simp
  ultimately have pos: "s = (take i s @ u0) @ ?m @ (r @ drop j s) \<and> i \<le> length (take i s @ u0)
           \<and> length (take i s @ u0) + length ?m \<le> j"
    by (rule slice_position)
  have "s = (take i s @ u0) @ ?m @ (r @ drop j s)
           \<and> i \<le> length (take i s @ u0)
           \<and> length (take i s @ u0) + length ?m \<le> j
           \<and> num \<noteq> [] \<and> (\<forall>d\<in>set num. is_digit d) \<and> (\<forall>w\<in>set ws. is_space w)
           \<and> is_quote q1 \<and> is_quote q2 \<and> trm \<noteq> [] \<and> (\<forall>c\<in>set trm. \<not> is_quote c)
           \<and> e = \<lparr> def_number = py_int num, def_term = strip trm \<rparr>"
    using pos p e by blast
  then show ?thesis by (intro exI)
qed


section \<open>The chapters of the extractor\<close>

lemma lazy_plus_k_SomeE:
  assumes "lazy_plus_k P k (b, t) = Some res"
  obtains run t' where "t = run @ t'" and "run \<noteq> []" and "\<forall>c\<in>set run. P c"
    and "k run (last run = NL, t') = Some res"
  using lazy_plus_k_SomeD [OF assms] that by blast

lemma lookahead_k_SomeD:
  "lookahead_k l k cur = Some res \<Longrightarrow> l cur \<noteq> None \<and> k cur = Some res"
  by (cases "l cur") (simp_all add: lookahead_k_def)

lemma alt_k_SomeD: "alt_k a b cur = Some res \<Longrightarrow> a cur = Some res \<or> b cur = Some res"
  by (simp add: alt_k_def split: option.splits)

lemma chapter_lookahead:
  assumes "alt_k (lit_k [NL, NL] (accept ())) (eol_k (accept ())) (b, r) \<noteq> None"
  shows "r = [] \<or> hd r = NL"
proof -
  from assms obtain res where
    "alt_k (lit_k [NL, NL] (accept ())) (eol_k (accept ())) (b, r) = Some res"
    by blast
  then consider "lit_k [NL, NL] (accept ()) (b, r) = Some res"
    | "eol_k (accept ()) (b, r) = Some res"
    by (blast dest: alt_k_SomeD)
  then show ?thesis
  proof cases
    case 1
    then obtain t' where "r = [NL, NL] @ t'"
      by (blast dest: lit_k_SomeD)
    then show ?thesis by simp
  next
    case 2
    then show ?thesis by (blast dest: eol_k_SomeD)
  qed
qed

lemma re_chapter_SomeD:
  assumes "re_chapter (b, t) = Some ((num, title), cur)"
  shows "b \<and> (\<exists>r. t = lit ''CHAPTER '' @ num @ [NL, NL] @ title @ r
           \<and> num \<noteq> [] \<and> (\<forall>c\<in>set num. is_roman c) \<and> title \<noteq> [] \<and> NL \<notin> set title
           \<and> (r = [] \<or> hd r = NL))"
proof -
  from bol_k_SomeD [OF assms [unfolded re_chapter_def]] have b: b
    and 0: "lit_k (lit ''CHAPTER '') (plus_k is_roman (\<lambda>num.
       lit_k [NL, NL] (lazy_plus_k not_nl (\<lambda>title.
         lookahead_k (alt_k (lit_k [NL, NL] (accept ())) (eol_k (accept ())))
           (accept (num, title)))))) (b, t) = Some ((num, title), cur)"
    by blast+
  from 0 obtain t1 b1 where t1: "t = lit ''CHAPTER '' @ t1"
    and 1: "plus_k is_roman (\<lambda>num.
       lit_k [NL, NL] (lazy_plus_k not_nl (\<lambda>title.
         lookahead_k (alt_k (lit_k [NL, NL] (accept ())) (eol_k (accept ())))
           (accept (num, title))))) (b1, t1) = Some ((num, title), cur)"
    by (rule lit_k_SomeE)
  from 1 obtain n t2 b2 where t2: "t1 = n @ t2" "n \<noteq> []" "\<forall>c\<in>set n. is_roman c"
    and 2: "lit_k [NL, NL] (lazy_plus_k not_nl (\<lambda>title.
         lookahead_k (alt_k (lit_k [NL, NL] (accept ())) (eol_k (accept ())))
           (accept (n, title)))) (b2, t2) = Some ((num, title), cur)"
    by (rule plus_k_SomeE)
  from 2 obtain t3 b3 where t3: "t2 = [NL, NL] @ t3"
    and 3: "lazy_plus_k not_nl (\<lambda>title.
         lookahead_k (alt_k (lit_k [NL, NL] (accept ())) (eol_k (accept ())))
           (accept (n, title))) (b3, t3) = Some ((num, title), cur)"
    by (rule lit_k_SomeE)
  from 3 obtain ti r where t4: "t3 = ti @ r" "ti \<noteq> []" "\<forall>c\<in>set ti. not_nl c"
    and 4: "lookahead_k (alt_k (lit_k [NL, NL] (accept ())) (eol_k (accept ())))
           (accept (n, ti)) (last ti = NL, r) = Some ((num, title), cur)"
    by (rule lazy_plus_k_SomeE)
  from lookahead_k_SomeD [OF 4]
  have l: "alt_k (lit_k [NL, NL] (accept ())) (eol_k (accept ())) (last ti = NL, r) \<noteq> None"
    and 5: "accept (n, ti) (last ti = NL, r) = Some ((num, title), cur)"
    by blast+
  from 5 have e: "n = num" "ti = title"
    by (auto dest: accept_SomeD)
  have "t = lit ''CHAPTER '' @ num @ [NL, NL] @ title @ r
           \<and> num \<noteq> [] \<and> (\<forall>c\<in>set num. is_roman c) \<and> title \<noteq> [] \<and> NL \<notin> set title
           \<and> (r = [] \<or> hd r = NL)"
    using t1 t2 t3 t4 e chapter_lookahead [OF l] by (auto simp: not_nl_def)
  then show ?thesis using b by blast
qed

lemma chapter_entry_origin:
  assumes "ch \<in> set (chapter_entries (extract_expected s))"
  shows "\<exists>pre num line rest.
           s = pre @ lit ''CHAPTER '' @ num @ [NL, NL] @ line @ rest
           \<and> (pre = [] \<or> last pre = NL)
           \<and> num \<noteq> [] \<and> (\<forall>c\<in>set num. is_roman c)
           \<and> line \<noteq> [] \<and> NL \<notin> set line \<and> (rest = [] \<or> hd rest = NL)
           \<and> ch = \<lparr> ch_number = num, ch_title = strip line \<rparr>"
proof -
  from assms obtain num title where g: "(num, title) \<in> set (re_finditer re_chapter s)"
    and e: "ch = \<lparr> ch_number = num, ch_title = strip title \<rparr>"
    by (auto simp: extract_expected_def extract_chapters_def Let_def)
  from re_finditer_sound [OF consuming_re_chapter g] obtain pre sfx cur where
    s: "s = pre @ sfx"
    and m: "re_chapter ((pre = [] \<or> last pre = NL), sfx) = Some ((num, title), cur)"
    by blast
  from re_chapter_SomeD [OF m] obtain r where
    "pre = [] \<or> last pre = NL" "sfx = lit ''CHAPTER '' @ num @ [NL, NL] @ title @ r"
    "num \<noteq> []" "\<forall>c\<in>set num. is_roman c" "title \<noteq> []" "NL \<notin> set title" "r = [] \<or> hd r = NL"
    by blast
  then have "s = pre @ lit ''CHAPTER '' @ num @ [NL, NL] @ title @ r
           \<and> (pre = [] \<or> last pre = NL)
           \<and> num \<noteq> [] \<and> (\<forall>c\<in>set num. is_roman c)
           \<and> title \<noteq> [] \<and> NL \<notin> set title \<and> (r = [] \<or> hd r = NL)
           \<and> ch = \<lparr> ch_number = num, ch_title = strip title \<rparr>"
    using s e by blast
  then show ?thesis by (intro exI)
qed


text \<open>
  Claim C1, as amended. The window of the definitions is found by searching the text for
  the first occurrence of the heading \<^verbatim>\<open>Article 4\<close> as a whole line with a newline before
  and after it, and likewise for \<^verbatim>\<open>Article 5\<close>. If either search finds nothing (no
  occurrence at any index), the definitions list is empty. If both succeed, at \<open>i\<close> and at
  \<open>j\<close>, every entry of the list comes from an occurrence of the pattern (a bracketed
  number, white space, a quoted term) that lies in the text from index \<open>i\<close> up to, not
  including, index \<open>j\<close>: nothing before the one or from the other on is reported.
\<close>

theorem definitions_window:
  "(py_find s (lit ''\<newline>Article 4\<newline>'') = None \<or> py_find s (lit ''\<newline>Article 5\<newline>'') = None \<longrightarrow>
      definition_entries (extract_expected s) = [])
   \<and> (py_find s (lit ''\<newline>Article 4\<newline>'') = Some i \<and> py_find s (lit ''\<newline>Article 5\<newline>'') = Some j \<longrightarrow>
        occurs_at s (lit ''\<newline>Article 4\<newline>'') i \<and> (\<forall>k<i. \<not> occurs_at s (lit ''\<newline>Article 4\<newline>'') k)
        \<and> occurs_at s (lit ''\<newline>Article 5\<newline>'') j \<and> (\<forall>k<j. \<not> occurs_at s (lit ''\<newline>Article 5\<newline>'') k)
        \<and> (\<forall>e \<in> set (definition_entries (extract_expected s)).
              \<exists>u v num ws q1 trm q2.
                s = u @ (lit ''('' @ num @ lit '')'' @ ws @ q1 # trm @ [q2]) @ v
                \<and> i \<le> length u
                \<and> length u + length (lit ''('' @ num @ lit '')'' @ ws @ q1 # trm @ [q2]) \<le> j
                \<and> num \<noteq> [] \<and> (\<forall>d\<in>set num. is_digit d) \<and> (\<forall>w\<in>set ws. is_space w)
                \<and> is_quote q1 \<and> is_quote q2 \<and> trm \<noteq> [] \<and> (\<forall>c\<in>set trm. \<not> is_quote c)
                \<and> e = \<lparr> def_number = py_int num, def_term = strip trm \<rparr>))
   \<and> (py_find s sub = None \<longleftrightarrow> (\<forall>k. \<not> occurs_at s sub k))"
proof (intro conjI impI ballI)
  assume "py_find s (lit ''\<newline>Article 4\<newline>'') = None \<or> py_find s (lit ''\<newline>Article 5\<newline>'') = None"
  then show "definition_entries (extract_expected s) = []"
    by (auto simp: extract_expected_def extract_definitions_def Let_def split: option.splits)
next
  assume a: "py_find s (lit ''\<newline>Article 4\<newline>'') = Some i \<and> py_find s (lit ''\<newline>Article 5\<newline>'') = Some j"
  then show "occurs_at s (lit ''\<newline>Article 4\<newline>'') i" "\<forall>k<i. \<not> occurs_at s (lit ''\<newline>Article 4\<newline>'') k"
    "occurs_at s (lit ''\<newline>Article 5\<newline>'') j" "\<forall>k<j. \<not> occurs_at s (lit ''\<newline>Article 5\<newline>'') k"
    using py_find_Some by blast+
  fix e
  assume "e \<in> set (definition_entries (extract_expected s))"
  with a show "\<exists>u v num ws q1 trm q2.
                s = u @ (lit ''('' @ num @ lit '')'' @ ws @ q1 # trm @ [q2]) @ v
                \<and> i \<le> length u
                \<and> length u + length (lit ''('' @ num @ lit '')'' @ ws @ q1 # trm @ [q2]) \<le> j
                \<and> num \<noteq> [] \<and> (\<forall>d\<in>set num. is_digit d) \<and> (\<forall>w\<in>set ws. is_space w)
                \<and> is_quote q1 \<and> is_quote q2 \<and> trm \<noteq> [] \<and> (\<forall>c\<in>set trm. \<not> is_quote c)
                \<and> e = \<lparr> def_number = py_int num, def_term = strip trm \<rparr>"
    using definition_entry_origin by blast
next
  show "py_find s sub = None \<longleftrightarrow> (\<forall>k. \<not> occurs_at s sub k)"
    by (rule py_find_None_iff)
qed

theorem definitions_window_witness:
  "py_find (lit ''(0) 'z'\<newline>Article 4\<newline>(1) 'a'\<newline>Article 5\<newline>(2) 'b'\<newline>'') (lit ''\<newline>Article 4\<newline>'') = Some 7
   \<and> py_find (lit ''(0) 'z'\<newline>Article 4\<newline>(1) 'a'\<newline>Article 5\<newline>(2) 'b'\<newline>'') (lit ''\<newline>Article 5\<newline>'') = Some 25
   \<and> definition_entries (extract_expected (lit ''(0) 'z'\<newline>Article 4\<newline>(1) 'a'\<newline>Article 5\<newline>(2) 'b'\<newline>'')) =
       [\<lparr> def_number = 1, def_term = lit ''a'' \<rparr>]
   \<and> (\<exists>u v num ws q1 trm q2.
        lit ''(0) 'z'\<newline>Article 4\<newline>(1) 'a'\<newline>Article 5\<newline>(2) 'b'\<newline>'' =
          u @ (lit ''('' @ num @ lit '')'' @ ws @ q1 # trm @ [q2]) @ v
        \<and> 7 \<le> length u
        \<and> length u + length (lit ''('' @ num @ lit '')'' @ ws @ q1 # trm @ [q2]) \<le> 25
        \<and> num \<noteq> [] \<and> (\<forall>d\<in>set num. is_digit d) \<and> (\<forall>w\<in>set ws. is_space w)
        \<and> is_quote q1 \<and> is_quote q2 \<and> trm \<noteq> [] \<and> (\<forall>c\<in>set trm. \<not> is_quote c)
        \<and> \<lparr> def_number = 1, def_term = lit ''a'' \<rparr> = \<lparr> def_number = py_int num, def_term = strip trm \<rparr>)
   \<and> py_find (lit ''Article 4\<newline>(1) 'a'\<newline>Article 5\<newline>'') (lit ''\<newline>Article 4\<newline>'') = None
   \<and> definition_entries (extract_expected (lit ''Article 4\<newline>(1) 'a'\<newline>Article 5\<newline>'')) = []"
proof -
  let ?s = "lit ''(0) 'z'\<newline>Article 4\<newline>(1) 'a'\<newline>Article 5\<newline>(2) 'b'\<newline>''"
  let ?t = "lit ''Article 4\<newline>(1) 'a'\<newline>Article 5\<newline>''"
  have a: "py_find ?s (lit ''\<newline>Article 4\<newline>'') = Some 7"
    and b: "py_find ?s (lit ''\<newline>Article 5\<newline>'') = Some 25"
    and n: "py_find ?t (lit ''\<newline>Article 4\<newline>'') = None"
    by code_simp+
  have d: "definition_entries (extract_expected ?s) = [\<lparr> def_number = 1, def_term = lit ''a'' \<rparr>]"
    by code_simp
  then have m: "\<lparr> def_number = 1, def_term = lit ''a'' \<rparr> \<in> set (definition_entries (extract_expected ?s))"
    by simp
  have 1: "\<exists>u v num ws q1 trm q2.
        ?s = u @ (lit ''('' @ num @ lit '')'' @ ws @ q1 # trm @ [q2]) @ v
        \<and> 7 \<le> length u
        \<and> length u + length (lit ''('' @ num @ lit '')'' @ ws @ q1 # trm @ [q2]) \<le> 25
        \<and> num \<noteq> [] \<and> (\<forall>d\<in>set num. is_digit d) \<and> (\<forall>w\<in>set ws. is_space w)
        \<and> is_quote q1 \<and> is_quote q2 \<and> trm \<noteq> [] \<and> (\<forall>c\<in>set trm. \<not> is_quote c)
        \<and> \<lparr> def_number = 1, def_term = lit ''a'' \<rparr> = \<lparr> def_number = py_int num, def_term = strip trm \<rparr>"
    by (rule bspec [OF definitions_window [of ?s 7 25, THEN conjunct2, THEN conjunct1,
            THEN mp, OF conjI [OF a b], THEN conjunct2, THEN conjunct2, THEN conjunct2,
            THEN conjunct2] m])
  have 2: "definition_entries (extract_expected ?t) = []"
    by (rule definitions_window [of ?t, THEN conjunct1, THEN mp, OF disjI1 [OF n]])
  show ?thesis
    by (intro conjI a b d 1 n 2)
qed


text \<open>
  The claim as stated speaks of the first line-start occurrence of each heading. A heading
  on the first line of the text starts a line but has no newline before it, and the
  search passes over it. Below, the first line is the heading \<^verbatim>\<open>Article 5\<close>; the only
  definition pattern of the text comes after it (at index 21), and is reported.
\<close>

theorem definition_after_first_article5_heading:
  "spec_first_heading (lit ''Article 5\<newline>\<newline>Article 4\<newline>(2) 'y'\<newline>Article 5\<newline>'') (lit ''Article 5'') = Some 0
   \<and> spec_first_heading (lit ''Article 5\<newline>\<newline>Article 4\<newline>(2) 'y'\<newline>Article 5\<newline>'') (lit ''Article 4'') = Some 11
   \<and> occurs_at (lit ''Article 5\<newline>\<newline>Article 4\<newline>(2) 'y'\<newline>Article 5\<newline>'') (lit ''(2) 'y'\<newline>'') 21
   \<and> definition_entries (extract_expected (lit ''Article 5\<newline>\<newline>Article 4\<newline>(2) 'y'\<newline>Article 5\<newline>'')) =
       [\<lparr> def_number = 2, def_term = lit ''y'' \<rparr>]"
  by code_simp

text \<open>
  Claim C2. Whatever headings the text holds, the articles list has, for every number, at
  most one entry: the first match with that number in scan order (so for a number that
  stands under several headings with different titles, the entry carries the title of the
  first), and none if no heading has the number. The list is sorted by number, ascending,
  and no number stands twice.
\<close>

theorem articles_deduplicated:
  "filter (\<lambda>a. art_number a = n) (article_entries (extract_expected s)) =
     (case find (\<lambda>a. art_number a = n) (article_matches s) of None \<Rightarrow> [] | Some a \<Rightarrow> [a])
   \<and> sorted (map art_number (article_entries (extract_expected s)))
   \<and> distinct (map art_number (article_entries (extract_expected s)))"
  using extract_articles_filter [of n s] extract_articles_sorted [of s]
  by (simp add: extract_expected_def Let_def)

theorem articles_deduplicated_witness:
  "article_matches (lit ''Article 7\<newline>First\<newline>Article 2\<newline>X\<newline>Article 7\<newline>Second\<newline>'') =
     [\<lparr> art_number = 7, art_title = lit ''First'' \<rparr>, \<lparr> art_number = 2, art_title = lit ''X'' \<rparr>,
      \<lparr> art_number = 7, art_title = lit ''Second'' \<rparr>]
   \<and> filter (\<lambda>a. art_number a = 7)
        (article_entries (extract_expected
          (lit ''Article 7\<newline>First\<newline>Article 2\<newline>X\<newline>Article 7\<newline>Second\<newline>''))) =
     [\<lparr> art_number = 7, art_title = lit ''First'' \<rparr>]
   \<and> map art_number (article_entries (extract_expected
          (lit ''Article 7\<newline>First\<newline>Article 2\<newline>X\<newline>Article 7\<newline>Second\<newline>''))) = [2, 7]"
proof -
  let ?s = "lit ''Article 7\<newline>First\<newline>Article 2\<newline>X\<newline>Article 7\<newline>Second\<newline>''"
  have m: "article_matches ?s =
     [\<lparr> art_number = 7, art_title = lit ''First'' \<rparr>, \<lparr> art_number = 2, art_title = lit ''X'' \<rparr>,
      \<lparr> art_number = 7, art_title = lit ''Second'' \<rparr>]"
    by code_simp
  have f: "filter (\<lambda>a. art_number a = 7) (article_entries (extract_expected ?s)) =
     [\<lparr> art_number = 7, art_title = lit ''First'' \<rparr>]"
    using articles_deduplicated [of 7 ?s] by (simp add: m)
  have n: "map art_number (article_entries (extract_expected ?s)) = [2, 7]"
    by code_simp
  from m f n show ?thesis by blast
qed

text \<open>
  Claim C4, as amended. Every chapter entry comes from a place of the text where a line
  starts with \<^verbatim>\<open>CHAPTER\<close>, a space and a roman numeral (one or more of I, V, X), followed
  by exactly two newlines (one blank line) and a line that is not empty; the numeral is the
  entry's number, and its title is that one line, trimmed: the title ends where the line
  ends, at the next newline or at the end of the text.
\<close>

theorem chapter_title_is_first_line:
  "\<forall>ch \<in> set (chapter_entries (extract_expected s)).
     \<exists>pre num line rest.
       s = pre @ lit ''CHAPTER '' @ num @ [NL, NL] @ line @ rest
       \<and> (pre = [] \<or> last pre = NL)
       \<and> num \<noteq> [] \<and> (\<forall>c\<in>set num. is_roman c)
       \<and> line \<noteq> [] \<and> NL \<notin> set line \<and> (rest = [] \<or> hd rest = NL)
       \<and> ch = \<lparr> ch_number = num, ch_title = strip line \<rparr>"
  using chapter_entry_origin by blast

theorem chapter_title_is_first_line_witness:
  "chapter_entries (extract_expected (lit ''x\<newline>CHAPTER IV\<newline>\<newline>Rights \<newline>of the subject\<newline>\<newline>y'')) =
     [\<lparr> ch_number = lit ''IV'', ch_title = lit ''Rights'' \<rparr>]
   \<and> (\<exists>pre num line rest.
       lit ''x\<newline>CHAPTER IV\<newline>\<newline>Rights \<newline>of the subject\<newline>\<newline>y'' =
         pre @ lit ''CHAPTER '' @ num @ [NL, NL] @ line @ rest
       \<and> (pre = [] \<or> last pre = NL)
       \<and> num \<noteq> [] \<and> (\<forall>c\<in>set num. is_roman c)
       \<and> line \<noteq> [] \<and> NL \<notin> set line \<and> (rest = [] \<or> hd rest = NL)
       \<and> \<lparr> ch_number = lit ''IV'', ch_title = lit ''Rights'' \<rparr> =
           \<lparr> ch_number = num, ch_title = strip line \<rparr>)"
proof -
  let ?s = "lit ''x\<newline>CHAPTER IV\<newline>\<newline>Rights \<newline>of the subject\<newline>\<newline>y''"
  have c: "chapter_entries (extract_expected ?s) = [\<lparr> ch_number = lit ''IV'', ch_title = lit ''Rights'' \<rparr>]"
    by code_simp
  then have m: "\<lparr> ch_number = lit ''IV'', ch_title = lit ''Rights'' \<rparr>
      \<in> set (chapter_entries (extract_expected ?s))"
    by simp
  show ?thesis
    by (intro conjI c bspec [OF chapter_title_is_first_line [of ?s] m])
qed


text \<open>
  The claim as stated lets the title run on to the next blank line, so that a title on two
  lines would be captured in full. The dot of the pattern does not match a newline, and
  under the multi-line flag the lookahead is satisfied at the end of every line: the title
  stops at the end of its first line.
\<close>

theorem chapter_title_stops_at_line_end:
  "chapter_entries (extract_expected (lit ''CHAPTER I\<newline>\<newline>General\<newline>provisions\<newline>\<newline>x'')) =
     [\<lparr> ch_number = lit ''I'', ch_title = lit ''General'' \<rparr>]
   \<and> spec_until_blank_line (drop 11 (lit ''CHAPTER I\<newline>\<newline>General\<newline>provisions\<newline>\<newline>x'')) =
       lit ''General\<newline>provisions''"
  by code_simp

text \<open>
  Claim C5. The field \<open>article_range\<close> is the text \<^verbatim>\<open>none\<close> exactly when the set of
  distinct article numbers is empty; otherwise it is the least and the greatest number of
  that set, joined by a hyphen, whatever numbers lie between them. \<open>articles\<close> is the size
  of the set. The recital fields are computed in the same way from the distinct recital
  numbers.
\<close>

theorem range_law:
  "articles (compute_stats s) = card (article_numbers s)
   \<and> article_range (compute_stats s) =
       (if article_numbers s = {} then lit ''none''
        else py_str (Min (article_numbers s)) @ lit ''-'' @ py_str (Max (article_numbers s)))
   \<and> (article_range (compute_stats s) = lit ''none'' \<longleftrightarrow> article_numbers s = {})
   \<and> recitals (compute_stats s) = card (recital_numbers s)
   \<and> recital_range (compute_stats s) =
       (if recital_numbers s = {} then lit ''none''
        else py_str (Min (recital_numbers s)) @ lit ''-'' @ py_str (Max (recital_numbers s)))
   \<and> (recital_range (compute_stats s) = lit ''none'' \<longleftrightarrow> recital_numbers s = {})"
proof -
  have a: "article_range (compute_stats s) = format_range (unique_numbers (re_finditer re_article_line s))"
    and r: "recital_range (compute_stats s) = format_range (unique_numbers (re_finditer re_recital_line s))"
    and na: "articles (compute_stats s) = length (unique_numbers (re_finditer re_article_line s))"
    and nr: "recitals (compute_stats s) = length (unique_numbers (re_finditer re_recital_line s))"
    unfolding compute_stats_def Let_def by simp_all
  show ?thesis
    unfolding a r na nr format_range_none
    by (simp add: format_range_eq unique_numbers_set unique_numbers_length
          article_numbers_def recital_numbers_def)
qed

text \<open>
  Claim C6. When the normalizer returns, the text it wrote to the output file has
  \<open>total_chars\<close> characters and \<open>total_lines\<close> segments between newlines (one more than
  it has newlines).
\<close>

theorem stats_describe_written_text:
  assumes "clean_gdpr_text fs input_path output_path = Inr (fs', st)"
  shows "\<exists>written. content fs' output_path = Some written
           \<and> total_chars st = length written
           \<and> total_lines st = length (split_nl written)
           \<and> total_lines st = Suc (count_list written NL)"
proof -
  from assms obtain raw where w: "write_text fs output_path (clean_text raw) = Inr fs'"
    and st: "st = compute_stats (clean_text raw)"
    by (auto simp: clean_gdpr_text_def Let_def split: sum.splits)
  from w have "content fs' output_path = Some (clean_text raw)"
    by (auto simp: write_text_def split: if_splits)
  moreover have "total_chars st = length (clean_text raw)"
    unfolding st compute_stats_def Let_def by simp
  moreover have "total_lines st = length (split_nl (clean_text raw))"
    unfolding st compute_stats_def Let_def by simp
  ultimately show ?thesis
    by (simp add: length_split_nl)
qed

theorem stats_describe_written_text_witness:
  "\<exists>fs' st.
     clean_gdpr_text
       \<lparr> content = (\<lambda>p. if p = lit ''in'' then Some (lit ''x\<newline>\<newline>\<newline>\<newline>y'') else None),
         writable = (\<lambda>p. True) \<rparr> (lit ''in'') (lit ''out'') = Inr (fs', st)
     \<and> content fs' (lit ''out'') = Some (lit ''x\<newline>\<newline>y'')
     \<and> total_chars st = 4 \<and> total_lines st = 3"
proof -
  let ?fs = "\<lparr> content = (\<lambda>p. if p = lit ''in'' then Some (lit ''x\<newline>\<newline>\<newline>\<newline>y'') else None),
         writable = (\<lambda>p. True) \<rparr>"
  have un: "universal_newlines (lit ''x\<newline>\<newline>\<newline>\<newline>y'') = lit ''x\<newline>\<newline>\<newline>\<newline>y''"
    by code_simp
  have ct: "clean_text (lit ''x\<newline>\<newline>\<newline>\<newline>y'') = lit ''x\<newline>\<newline>y''"
    by code_simp
  have r: "clean_gdpr_text ?fs (lit ''in'') (lit ''out'') =
      Inr (?fs\<lparr>content := (content ?fs)(lit ''out'' \<mapsto> lit ''x\<newline>\<newline>y'')\<rparr>,
           compute_stats (lit ''x\<newline>\<newline>y''))"
    by (simp add: clean_gdpr_text_def read_text_def write_text_def un ct Let_def)
  from stats_describe_written_text [OF r]
  obtain written where w: "written = lit ''x\<newline>\<newline>y''"
    and c: "total_chars (compute_stats (lit ''x\<newline>\<newline>y'')) = length written"
    and l: "total_lines (compute_stats (lit ''x\<newline>\<newline>y'')) = Suc (count_list written NL)"
    by auto
  have "length (lit ''x\<newline>\<newline>y'') = 4" "Suc (count_list (lit ''x\<newline>\<newline>y'') NL) = 3"
    by (simp_all add: lit_def)
  with w c l r show ?thesis by auto
qed

text \<open>
  Claim C7, as amended. The collapsing step replaces every run of three or more newlines by
  exactly two and leaves a run of one or two as it is: for a run of \<open>n\<close> newlines between a
  text that does not end in a newline and one that does not start with one, the step
  yields two newlines if \<open>n\<close> is at least three and \<open>n\<close> otherwise, whatever it does to the
  texts around. Consequently the normalizer's output never holds three consecutive
  newlines, that is, never more than one blank line in a row.
\<close>

theorem newline_runs_collapse:
  "((a = [] \<or> last a \<noteq> NL) \<and> (c = [] \<or> hd c \<noteq> NL) \<longrightarrow>
      collapse_newlines (a @ replicate n NL @ c) =
        collapse_newlines a @ replicate (if 3 \<le> n then 2 else n) NL @ collapse_newlines c)
   \<and> (\<forall>u v. clean_text raw \<noteq> u @ [NL, NL, NL] @ v)"
  using collapse_newlines_append_run clean_text_no_triple by blast

theorem newline_runs_collapse_witness:
  "collapse_newlines (lit ''x'' @ replicate 5 NL @ lit ''y'') = lit ''x\<newline>\<newline>y''
   \<and> collapse_newlines (lit ''x'' @ replicate 2 NL @ lit ''y'') = lit ''x\<newline>\<newline>y''
   \<and> clean_text (lit ''x\<newline>\<newline>\<newline>\<newline>\<newline>y'') \<noteq> lit ''x'' @ [NL, NL, NL] @ lit ''y''"
proof -
  have x: "collapse_newlines (lit ''x'') = lit ''x''" and y: "collapse_newlines (lit ''y'') = lit ''y''"
    by code_simp+
  have h: "(lit ''x'' = [] \<or> last (lit ''x'') \<noteq> NL) \<and> (lit ''y'' = [] \<or> hd (lit ''y'') \<noteq> NL)"
    by (simp add: lit_def)
  have "collapse_newlines (lit ''x'' @ replicate 5 NL @ lit ''y'') = lit ''x\<newline>\<newline>y''"
    using newline_runs_collapse [of "lit ''x''" "lit ''y''" 5] h x y
    by (simp add: lit_def numeral_2_eq_2)
  moreover have "collapse_newlines (lit ''x'' @ replicate 2 NL @ lit ''y'') = lit ''x\<newline>\<newline>y''"
    using newline_runs_collapse [of "lit ''x''" "lit ''y''" 2] h x y
    by (simp add: lit_def numeral_2_eq_2)
  moreover have "clean_text (lit ''x\<newline>\<newline>\<newline>\<newline>\<newline>y'') \<noteq> lit ''x'' @ [NL, NL, NL] @ lit ''y''"
    using newline_runs_collapse [of "[]" "[]" 0 "lit ''x\<newline>\<newline>\<newline>\<newline>\<newline>y''"] by blast
  ultimately show ?thesis by blast
qed


text \<open>
  The claim as stated goes further: three or more consecutive blank lines of the raw input
  would become exactly one blank line of the output. They need not: the blank lines after a
  recital marker alone on its line are consumed by the recital-prefix step (and leading
  blank lines are stripped), so none is left.
\<close>

theorem blank_lines_can_vanish:
  "split_nl (lit ''a\<newline>(1)\<newline>\<newline>\<newline>\<newline>b'') = [lit ''a'', lit ''(1)'', [], [], [], lit ''b'']
   \<and> clean_text (lit ''a\<newline>(1)\<newline>\<newline>\<newline>\<newline>b'') = lit ''a\<newline>(1) b''
   \<and> split_nl (clean_text (lit ''a\<newline>(1)\<newline>\<newline>\<newline>\<newline>b'')) = [lit ''a'', lit ''(1) b'']"
  by code_simp

text \<open>
  Claim C8. With fewer than two arguments after the program's name, the program prints the
  usage line only, leaves every file as it was and ends with status 1. With an input file
  that can be read and output paths that can be written (so that no I/O error occurs), it
  goes on: it prints the progress report, writes the cleaned text and ends with status 0.
\<close>

theorem main_exit_behaviour:
  "(length args < 2 \<longrightarrow>
      main json_dumps fs prog args =
        \<lparr> final_fs = fs, stdout = [usage_line prog], exit_status = 1 \<rparr>)
   \<and> (args = input_path # output_path # rest \<and> content fs input_path = Some raw
        \<and> writable fs output_path
        \<and> (2 \<le> length rest \<and> rest ! 0 = lit ''--generate-expected'' \<longrightarrow> writable fs (rest ! 1))
      \<longrightarrow>
      exit_status (main json_dumps fs prog args) = 0
      \<and> take 8 (stdout (main json_dumps fs prog args)) =
          report input_path (compute_stats (clean_text (universal_newlines raw))) output_path
      \<and> content (final_fs (main json_dumps fs prog args)) output_path \<noteq> None)"
proof (rule conjI; rule impI)
  assume "length args < 2"
  then show "main json_dumps fs prog args =
      \<lparr> final_fs = fs, stdout = [usage_line prog], exit_status = 1 \<rparr>"
    by (rule main_too_few)
next
  assume a: "args = input_path # output_path # rest \<and> content fs input_path = Some raw
        \<and> writable fs output_path
        \<and> (2 \<le> length rest \<and> rest ! 0 = lit ''--generate-expected'' \<longrightarrow> writable fs (rest ! 1))"
  then have 1: "args = input_path # output_path # rest" and 2: "content fs input_path = Some raw"
    and 3: "writable fs output_path"
    and 4: "2 \<le> length rest \<and> rest ! 0 = lit ''--generate-expected'' \<longrightarrow> writable fs (rest ! 1)"
    by blast+
  show "exit_status (main json_dumps fs prog args) = 0
      \<and> take 8 (stdout (main json_dumps fs prog args)) =
          report input_path (compute_stats (clean_text (universal_newlines raw))) output_path
      \<and> content (final_fs (main json_dumps fs prog args)) output_path \<noteq> None"
    by (rule main_proceeds [OF 1 2 3 4])
qed

theorem main_exit_behaviour_witness:
  "main (\<lambda>e. lit ''{}'')
      \<lparr> content = (\<lambda>p. if p = lit ''in'' then Some (lit ''Article 1\<newline>\<newline>T'') else None),
        writable = (\<lambda>p. True) \<rparr> (lit ''prog'') [lit ''in''] =
     \<lparr> final_fs =
         \<lparr> content = (\<lambda>p. if p = lit ''in'' then Some (lit ''Article 1\<newline>\<newline>T'') else None),
           writable = (\<lambda>p. True) \<rparr>,
       stdout = [usage_line (lit ''prog'')], exit_status = 1 \<rparr>
   \<and> exit_status (main (\<lambda>e. lit ''{}'')
      \<lparr> content = (\<lambda>p. if p = lit ''in'' then Some (lit ''Article 1\<newline>\<newline>T'') else None),
        writable = (\<lambda>p. True) \<rparr> (lit ''prog'')
      [lit ''in'', lit ''out'', lit ''--generate-expected'', lit ''j'']) = 0"
proof -
  let ?fs = "\<lparr> content = (\<lambda>p. if p = lit ''in'' then Some (lit ''Article 1\<newline>\<newline>T'') else None),
        writable = (\<lambda>p. True) \<rparr>"
  have "length [lit ''in''] < 2"
    by simp
  then have 1: "main (\<lambda>e. lit ''{}'') ?fs (lit ''prog'') [lit ''in''] =
      \<lparr> final_fs = ?fs, stdout = [usage_line (lit ''prog'')], exit_status = 1 \<rparr>"
    using main_exit_behaviour [of "[lit ''in'']" "\<lambda>e. lit ''{}''" ?fs "lit ''prog''"] by blast
  have "[lit ''in'', lit ''out'', lit ''--generate-expected'', lit ''j''] =
          lit ''in'' # lit ''out'' # [lit ''--generate-expected'', lit ''j'']
      \<and> content ?fs (lit ''in'') = Some (lit ''Article 1\<newline>\<newline>T'')
      \<and> writable ?fs (lit ''out'')
      \<and> (2 \<le> length [lit ''--generate-expected'', lit ''j'']
            \<and> [lit ''--generate-expected'', lit ''j''] ! 0 = lit ''--generate-expected''
          \<longrightarrow> writable ?fs ([lit ''--generate-expected'', lit ''j''] ! 1))"
    by simp
  then have 2: "exit_status (main (\<lambda>e. lit ''{}'') ?fs (lit ''prog'')
      [lit ''in'', lit ''out'', lit ''--generate-expected'', lit ''j'']) = 0"
    using main_exit_behaviour [of "[lit ''in'', lit ''out'', lit ''--generate-expected'', lit ''j'']"
        "\<lambda>e. lit ''{}''" ?fs "lit ''prog''" "lit ''in''" "lit ''out''"
        "[lit ''--generate-expected'', lit ''j'']" "lit ''Article 1\<newline>\<newline>T''"]
    by blast
  from 1 2 show ?thesis by blast
qed

text \<open>
  Claim C9. Let a line start with a bracketed number \<open>(ds)\<close>, followed by white space \<open>ws\<close>
  only (newlines included). If a character \<open>c\<close> that is not white space comes next, the
  recital-prefix step puts it on the marker's line, one space after the bracket; the step
  loses a line for every newline of \<open>ws\<close>; and the normalizer's output holds the joined
  text. If nothing follows the white space, the step's result and the normalizer's output
  end with the marker and one trailing space.
\<close>

theorem recital_prefix_joins_lines:
  assumes "pre = [] \<or> last pre = NL" and "ds \<noteq> []" and "\<forall>d\<in>set ds. is_digit d"
    and "\<forall>w\<in>set ws. is_space w"
  shows "(\<not> is_space c \<longrightarrow>
           (\<exists>u v. fix_recitals (pre @ lit ''('' @ ds @ lit '')'' @ ws @ c # post) =
                    u @ lit ''('' @ ds @ lit '') '' @ c # v)
           \<and> length (split_nl (fix_recitals (pre @ lit ''('' @ ds @ lit '')'' @ ws @ c # post)))
                + count_list ws NL
              \<le> length (split_nl (pre @ lit ''('' @ ds @ lit '')'' @ ws @ c # post))
           \<and> (clean_lines (remove_bars (remove_borders raw)) =
                  pre @ lit ''('' @ ds @ lit '')'' @ ws @ c # post \<longrightarrow>
                (\<exists>u v. clean_text raw = u @ lit ''('' @ ds @ lit '') '' @ c # v)))
         \<and> (\<exists>u. fix_recitals (pre @ lit ''('' @ ds @ lit '')'' @ ws) = u @ lit ''('' @ ds @ lit '') '')
         \<and> (clean_lines (remove_bars (remove_borders raw)) = pre @ lit ''('' @ ds @ lit '')'' @ ws \<longrightarrow>
              (\<exists>u. clean_text raw = u @ lit ''('' @ ds @ lit '') ''))"
proof (intro conjI impI)
  assume c: "\<not> is_space c"
  let ?t = "pre @ lit ''('' @ ds @ lit '')'' @ ws @ c # post"
  have "c # post = [] \<or> \<not> is_space (hd (c # post))"
    using c by simp
  from fix_recitals_marker [OF assms this] obtain u where
    u: "fix_recitals ?t = u @ recital_repl ds @ rf (ws \<noteq> [] \<and> last ws = NL) (c # post)"
    and cu: "count_list u NL \<le> count_list pre NL"
    by blast
  obtain v where v: "rf (ws \<noteq> [] \<and> last ws = NL) (c # post) = c # v"
    using rf_keeps_first by blast
  have f: "fix_recitals ?t = u @ lit ''('' @ ds @ lit '') '' @ c # v"
    using u v by (simp add: recital_repl_def)
  then show "\<exists>u v. fix_recitals ?t = u @ lit ''('' @ ds @ lit '') '' @ c # v"
    by blast
  have "count_list (rf (ws \<noteq> [] \<and> last ws = NL) (c # post)) NL \<le> count_list (c # post) NL"
    by (rule count_fix_recitals)
  then have "count_list (fix_recitals ?t) NL \<le> count_list pre NL + count_list (c # post) NL"
    using u cu count_recital_repl [OF assms(3)] by simp
  moreover have "count_list ?t NL = count_list pre NL + count_list ws NL + count_list (c # post) NL"
    using assms(3) by (auto simp: lit_def count_list_0_iff)
  ultimately show "length (split_nl (fix_recitals ?t)) + count_list ws NL \<le> length (split_nl ?t)"
    by (simp add: length_split_nl)
  assume "clean_lines (remove_bars (remove_borders raw)) = ?t"
  then have "fix_recitals (clean_lines (remove_bars (remove_borders raw))) =
      u @ (recital_repl ds @ [c]) @ v"
    using f by (simp add: recital_repl_def)
  moreover have "NL \<notin> set (recital_repl ds @ [c])"
    using no_nl_recital_repl [OF assms(3)] c by auto
  ultimately obtain u' v' where "clean_text raw = u' @ (recital_repl ds @ [c]) @ v'"
    using clean_text_keeps_infix [of raw u "recital_repl ds @ [c]" v] by blast
  then have "clean_text raw = u' @ lit ''('' @ ds @ lit '') '' @ c # v'"
    by (simp add: recital_repl_def)
  then show "\<exists>u v. clean_text raw = u @ lit ''('' @ ds @ lit '') '' @ c # v"
    by blast
next
  let ?t = "pre @ lit ''('' @ ds @ lit '')'' @ ws"
  have "([]::str) = [] \<or> \<not> is_space (hd [])"
    by simp
  from fix_recitals_marker [OF assms this] obtain u where
    u: "fix_recitals ?t = u @ recital_repl ds"
    by auto
  then show e: "\<exists>u. fix_recitals ?t = u @ lit ''('' @ ds @ lit '') ''"
    by (auto simp: recital_repl_def)
  assume "clean_lines (remove_bars (remove_borders raw)) = ?t"
  then have "fix_recitals (clean_lines (remove_bars (remove_borders raw))) = u @ recital_repl ds @ []"
    using u by simp
  moreover have "NL \<notin> set (recital_repl ds)" "recital_repl ds \<noteq> []"
    using no_nl_recital_repl [OF assms(3)] by (simp_all add: recital_repl_def)
  ultimately obtain u' where "clean_text raw = u' @ recital_repl ds"
    using clean_text_keeps_infix [of raw u "recital_repl ds" "[]"] by auto
  then show "\<exists>u. clean_text raw = u @ lit ''('' @ ds @ lit '') ''"
    by (auto simp: recital_repl_def)
qed

theorem recital_prefix_joins_lines_witness:
  "(\<exists>u v. fix_recitals (lit ''a\<newline>(1)\<newline>\<newline>b'') = u @ lit ''(1) b'' @ v)
   \<and> length (split_nl (fix_recitals (lit ''a\<newline>(1)\<newline>\<newline>b''))) + 2
       \<le> length (split_nl (lit ''a\<newline>(1)\<newline>\<newline>b''))
   \<and> (\<exists>u v. clean_text (lit ''a\<newline>(1)\<newline>\<newline>b'') = u @ lit ''(1) b'' @ v)
   \<and> (\<exists>u. fix_recitals (lit ''a\<newline>(1)\<newline>\<newline>'') = u @ lit ''(1) '')
   \<and> (\<exists>u. clean_text (lit ''a\<newline>(1)\<newline>\<newline>'') = u @ lit ''(1) '')
   \<and> clean_text (lit ''a\<newline>(1)\<newline>\<newline>b'') = lit ''a\<newline>(1) b''
   \<and> clean_text (lit ''a\<newline>(1)\<newline>\<newline>'') = lit ''a\<newline>(1) ''"
proof -
  have h: "lit ''a\<newline>'' = [] \<or> last (lit ''a\<newline>'') = NL" "lit ''1'' \<noteq> []"
    "\<forall>d\<in>set (lit ''1''). is_digit d" "\<forall>w\<in>set [NL, NL]. is_space w"
    by (simp_all add: lit_def is_digit_def decimal_def decimal_zeros_def)
  have e1: "lit ''a\<newline>'' @ lit ''('' @ lit ''1'' @ lit '')'' @ [NL, NL] @ 98 # [] = lit ''a\<newline>(1)\<newline>\<newline>b''"
    and e2: "lit ''a\<newline>'' @ lit ''('' @ lit ''1'' @ lit '')'' @ [NL, NL] = lit ''a\<newline>(1)\<newline>\<newline>''"
    and e3: "lit ''('' @ lit ''1'' @ lit '') '' @ 98 # v = lit ''(1) b'' @ v"
    and e4: "lit ''('' @ lit ''1'' @ lit '') '' = lit ''(1) ''" for v
    by (simp_all add: lit_def)
  have c1: "clean_lines (remove_bars (remove_borders (lit ''a\<newline>(1)\<newline>\<newline>b''))) = lit ''a\<newline>(1)\<newline>\<newline>b''"
    and c2: "clean_lines (remove_bars (remove_borders (lit ''a\<newline>(1)\<newline>\<newline>''))) = lit ''a\<newline>(1)\<newline>\<newline>''"
    by code_simp+
  have ns: "\<not> is_space 98"
    by (simp add: is_space_def)
  have cnt: "count_list [NL, NL] NL = 2"
    by simp
  note t1 = recital_prefix_joins_lines [OF h, of 98 "[]" "lit ''a\<newline>(1)\<newline>\<newline>b''", unfolded e1 e2 e3 e4 cnt]
  note t2 = recital_prefix_joins_lines [OF h, of 98 "[]" "lit ''a\<newline>(1)\<newline>\<newline>''", unfolded e1 e2 e3 e4 cnt]
  have v1: "clean_text (lit ''a\<newline>(1)\<newline>\<newline>b'') = lit ''a\<newline>(1) b''"
    and v2: "clean_text (lit ''a\<newline>(1)\<newline>\<newline>'') = lit ''a\<newline>(1) ''"
    by code_simp+
  show ?thesis
    using t1 t2 ns c1 c2 v1 v2 by blast
qed

text \<open>
  Claim C10. If both boundary strings are found but the first occurrence of the
  \<^verbatim>\<open>Article 5\<close> heading precedes the first occurrence of the \<^verbatim>\<open>Article 4\<close> heading,
  the slice between them is empty and the definitions list is empty, whatever stands
  between the two headings. The occurrences are the ones the extractor searches for: the
  heading as a whole line, with the newline before and after it.
\<close>

theorem no_definitions_when_article5_first:
  assumes "py_find s (lit ''\<newline>Article 4\<newline>'') = Some i"
    and "py_find s (lit ''\<newline>Article 5\<newline>'') = Some j"
    and "j < i"
  shows "definition_entries (extract_expected s) = []"
proof -
  have "slice s i j = []"
    using \<open>j < i\<close> by (simp add: slice_def)
  then show ?thesis
    using assms(1,2) by (simp add: extract_expected_def extract_definitions_def re_finditer_Nil Let_def)
qed

theorem no_definitions_when_article5_first_witness:
  "py_find (lit ''\<newline>Article 5\<newline>(1) 'x'\<newline>Article 4\<newline>'') (lit ''\<newline>Article 4\<newline>'') = Some 18
   \<and> py_find (lit ''\<newline>Article 5\<newline>(1) 'x'\<newline>Article 4\<newline>'') (lit ''\<newline>Article 5\<newline>'') = Some 0
   \<and> (0::nat) < 18
   \<and> re_finditer re_definition (lit ''\<newline>Article 5\<newline>(1) 'x'\<newline>Article 4\<newline>'') = [(lit ''1'', lit ''x'')]
   \<and> definition_entries (extract_expected (lit ''\<newline>Article 5\<newline>(1) 'x'\<newline>Article 4\<newline>'')) = []"
proof -
  have a: "py_find (lit ''\<newline>Article 5\<newline>(1) 'x'\<newline>Article 4\<newline>'') (lit ''\<newline>Article 4\<newline>'') = Some 18"
    by code_simp
  have b: "py_find (lit ''\<newline>Article 5\<newline>(1) 'x'\<newline>Article 4\<newline>'') (lit ''\<newline>Article 5\<newline>'') = Some 0"
    by code_simp
  have c: "re_finditer re_definition (lit ''\<newline>Article 5\<newline>(1) 'x'\<newline>Article 4\<newline>'') = [(lit ''1'', lit ''x'')]"
    by code_simp
  have d: "(0::nat) < 18" by simp
  show ?thesis
    by (intro conjI a b c d no_definitions_when_article5_first [OF a b d])
qed

end
